theory Spec2Isabelle
  imports Main "HOL-Library.Char_ord" "HOL-Library.List_Lexorder"
begin

section \<open>Strings and paths\<close>

text \<open>
  The program is \<^verbatim>\<open>s3_explorer.py\<close>. Keys are Python \<^verbatim>\<open>str\<close> values; here a
  \<^typ>\<open>string\<close> is the UTF-8 encoding of one. The characters \<^verbatim>\<open>/\<close> and \<^verbatim>\<open>.\<close> are
  single bytes that occur in no longer sequence, and the order of the encodings is the
  order of the strings, so splitting, searching, slicing at a found index and comparing
  are the same on both.

  \<^verbatim>\<open>str.lower\<close> is Unicode case mapping, whose table is not part of the program. It
  is a parameter \<open>lower\<close> of every definition that calls it, and nothing is assumed
  of it but where a statement says so: there it is what \<^verbatim>\<open>str.lower\<close> does to ASCII
  strings, \<open>ascii_lower\<close>, which maps \<^verbatim>\<open>A-Z\<close> to \<^verbatim>\<open>a-z\<close>.

  \<^verbatim>\<open>Path\<close> is \<^verbatim>\<open>pathlib.PurePosixPath\<close> of CPython 3.11 (the script runs on a POSIX
  system): a root (\<^verbatim>\<open>''\<close>, \<^verbatim>\<open>'/'\<close> or \<^verbatim>\<open>'//'\<close>) and the list \<^verbatim>\<open>_parts\<close>, whose
  first element is the root when there is one. Two paths are equal when their \<^verbatim>\<open>_parts\<close>
  are equal, and they are ordered by comparing \<^verbatim>\<open>_parts\<close> as lists of strings.
\<close>

type_synonym str_lower = "string \<Rightarrow> string"

definition ascii :: "string \<Rightarrow> bool" where
  "ascii s = list_all (\<lambda>c. of_char c < (128::nat)) s"

definition ascii_lower_char :: "char \<Rightarrow> char" where
  "ascii_lower_char c =
     (if CHR ''A'' \<le> c \<and> c \<le> CHR ''Z'' then char_of (of_char c + (32::nat)) else c)"

definition ascii_lower :: str_lower where
  "ascii_lower s = map ascii_lower_char s"

definition startswith :: "string \<Rightarrow> string \<Rightarrow> bool" where
  "startswith s p = (take (length p) s = p)"

definition endswith :: "string \<Rightarrow> string \<Rightarrow> bool" where
  "endswith s p = (length p \<le> length s \<and> drop (length s - length p) s = p)"

text \<open>\<^verbatim>\<open>s.split(c)\<close> for a one-character separator: never empty, \<^verbatim>\<open>''.split(c) == ['']\<close>.\<close>

fun split :: "char \<Rightarrow> string \<Rightarrow> string list" where
  "split c [] = [[]]"
| "split c (x # xs) =
     (if x = c then [] # split c xs
      else (case split c xs of [] \<Rightarrow> [[x]] | y # ys \<Rightarrow> (x # y) # ys))"

text \<open>\<^verbatim>\<open>s.rfind(c)\<close>: the index of the last occurrence, \<^verbatim>\<open>-1\<close> when there is none.\<close>

fun rfind :: "string \<Rightarrow> char \<Rightarrow> int" where
  "rfind [] c = - 1"
| "rfind (x # xs) c =
     (let r = rfind xs c in if 0 \<le> r then r + 1 else if x = c then 0 else - 1)"

text \<open>\<^verbatim>\<open>sep.join(xs)\<close>.\<close>

fun join :: "string \<Rightarrow> string list \<Rightarrow> string" where
  "join sep [] = []"
| "join sep [x] = x"
| "join sep (x # y # ys) = x @ sep @ join sep (y # ys)"

record path =
  root :: string
  parts :: "string list"

text \<open>\<^verbatim>\<open>_PosixFlavour.splitroot\<close>: the root and the rest of the string.\<close>

definition splitroot :: "string \<Rightarrow> string \<times> string" where
  "splitroot part =
     (if part \<noteq> [] \<and> hd part = CHR ''/'' then
        (let stripped_part = dropWhile (\<lambda>c. c = CHR ''/'') part in
         if length part - length stripped_part = 2 then (''//'', stripped_part)
         else (''/'', stripped_part))
      else ('''', part))"

text \<open>
  \<^verbatim>\<open>Path(s)\<close> for one string: \<^verbatim>\<open>_Flavour.parse_parts([s])\<close>. Empty segments and
  \<^verbatim>\<open>'.'\<close> segments are dropped, and the root, when there is one, is the first part.
\<close>

definition Path :: "string \<Rightarrow> path" where
  "Path s =
     (if s = [] then \<lparr>root = [], parts = []\<rparr>
      else
        (let (rt, rel) = splitroot s;
             parsed =
               (if CHR ''/'' \<in> set rel
                then filter (\<lambda>x. x \<noteq> [] \<and> x \<noteq> ''.'') (split CHR ''/'' rel)
                else if rel \<noteq> [] \<and> rel \<noteq> ''.'' then [rel] else [])
         in \<lparr>root = rt, parts = (if rt \<noteq> [] then [rt] else []) @ parsed\<rparr>))"

definition name :: "path \<Rightarrow> string" where
  "name p =
     (if length (parts p) = (if root p \<noteq> [] then 1 else 0) then [] else last (parts p))"

text \<open>
  \<^verbatim>\<open>suffix\<close>: the index \<open>i\<close> counts bytes here and characters in the program; it is
  \<open>0\<close>, or the last index, in the one exactly when it is in the other, and the slice
  from it is the same string.
\<close>

definition suffix :: "path \<Rightarrow> string" where
  "suffix p =
     (let nm = name p; i = rfind nm CHR ''.'' in
      if 0 < i \<and> i < int (length nm) - 1 then drop (nat i) nm else [])"

definition parent :: "path \<Rightarrow> path" where
  "parent p =
     (if length (parts p) = 1 \<and> root p \<noteq> [] then p
      else \<lparr>root = root p, parts = butlast (parts p)\<rparr>)"

text \<open>\<^verbatim>\<open>str(p)\<close>: the empty path prints as \<^verbatim>\<open>'.'\<close>.\<close>

definition str :: "path \<Rightarrow> string" where
  "str p =
     (let s = (if root p \<noteq> [] then root p @ join ''/'' (tl (parts p))
               else join ''/'' (parts p))
      in if s = [] then ''.'' else s)"

text \<open>
  \<^verbatim>\<open>p / key\<close>: \<^verbatim>\<open>join_parsed_parts\<close> without drives. A key with a root replaces
  \<^verbatim>\<open>p\<close>; any other key is appended.
\<close>

definition truediv :: "path \<Rightarrow> string \<Rightarrow> path" where
  "truediv p key =
     (let q = Path key in
      if root q \<noteq> [] then q
      else \<lparr>root = root p, parts = parts p @ parts q\<rparr>)"

section \<open>Arguments\<close>

text \<open>
  The namespace returned by \<^verbatim>\<open>parser.parse_args()\<close>. \<^verbatim>\<open>--extensions\<close> has
  \<^verbatim>\<open>nargs="*"\<close>: \<^verbatim>\<open>None\<close> when the option is not given, a list (possibly empty) when
  it is. \<^verbatim>\<open>--dest\<close> is \<^verbatim>\<open>None\<close> or a string (possibly empty).
\<close>

record args =
  prefix :: string
  extensions :: "string list option"
  details :: bool
  quiet :: bool
  download :: bool
  dest :: "string option"

datatype error = RuntimeError | NameError | OSError string | ClientError string

text \<open>Python truth values of an optional string and of an optional list.\<close>

definition truthy :: "'a list option \<Rightarrow> bool" where
  "truthy v = (case v of None \<Rightarrow> False | Some xs \<Rightarrow> xs \<noteq> [])"

text \<open>
  Lines 25 to 28: \<^verbatim>\<open>DEST_ROOT\<close> is bound when both are given, a bare \<^verbatim>\<open>raise\<close>
  (a \<^verbatim>\<open>RuntimeError\<close>) when one is, and \<^verbatim>\<open>DEST_ROOT\<close> stays unbound otherwise.
\<close>

definition validate :: "args \<Rightarrow> error + path option" where
  "validate a =
     (if download a \<and> truthy (dest a) then Inr (Some (Path (the (dest a))))
      else if download a \<or> truthy (dest a) then Inl RuntimeError
      else Inr None)"

text \<open>Lines 31 to 33.\<close>

definition normalise_extensions :: "str_lower \<Rightarrow> string list option \<Rightarrow> string list option" where
  "normalise_extensions lower exts =
     (if truthy exts then
        Some (map (\<lambda>ext. if startswith ext ''.'' then lower ext else ''.'' @ lower ext)
                  (the exts))
      else None)"

text \<open>Line 35.\<close>

definition PREFIX :: "args \<Rightarrow> string" where
  "PREFIX a = (if endswith (prefix a) ''/'' then prefix a else prefix a @ ''/'')"

section \<open>The scan pass\<close>

record entry =
  Key :: string
  Size :: int

text \<open>A page of the listing; \<^verbatim>\<open>page.get("Contents", [])\<close> reads it.\<close>

type_synonym page = "entry list option"

definition contents :: "page \<Rightarrow> entry list" where
  "contents pg = (case pg of None \<Rightarrow> [] | Some es \<Rightarrow> es)"

record folder_stats =
  files :: int
  bytes :: int
  ignored :: int

definition zero_stats :: folder_stats where
  "zero_stats = \<lparr>files = 0, bytes = 0, ignored = 0\<rparr>"

text \<open>
  \<^verbatim>\<open>stats\<close> is a \<^verbatim>\<open>defaultdict\<close>: a dictionary in insertion order, here an
  association list with distinct keys. \<^verbatim>\<open>stats[folder][field] += v\<close> inserts the zero
  record for an unseen folder, then updates the field.
\<close>

type_synonym stats_dict = "(path \<times> folder_stats) list"

fun modify :: "(folder_stats \<Rightarrow> folder_stats) \<Rightarrow> path \<Rightarrow> stats_dict \<Rightarrow> stats_dict" where
  "modify f k [] = [(k, f zero_stats)]"
| "modify f k ((k', v) # rest) =
     (if k' = k then (k', f v) # rest else (k', v) # modify f k rest)"

fun lookup :: "stats_dict \<Rightarrow> path \<Rightarrow> folder_stats option" where
  "lookup [] k = None"
| "lookup ((k', v) # rest) k = (if k' = k then Some v else lookup rest k)"

text \<open>A \<^verbatim>\<open>tqdm\<close> bar: \<^verbatim>\<open>update\<close> does nothing on a disabled bar.\<close>

record tqdm =
  total :: "int option"
  disable :: bool
  n :: int
  postfix :: "int option"

definition new_tqdm :: "int option \<Rightarrow> bool \<Rightarrow> tqdm" where
  "new_tqdm tot d = \<lparr>total = tot, disable = d, n = 0, postfix = None\<rparr>"

definition update :: "int \<Rightarrow> tqdm \<Rightarrow> tqdm" where
  "update k bar = (if disable bar then bar else bar\<lparr>n := n bar + k\<rparr>)"

definition set_postfix :: "int \<Rightarrow> tqdm \<Rightarrow> tqdm" where
  "set_postfix v bar = bar\<lparr>postfix := Some v\<rparr>"

record scan_state =
  stats :: stats_dict
  total_files :: int
  total_bytes :: int
  total_ignored :: int

definition scan_init :: scan_state where
  "scan_init = \<lparr>stats = [], total_files = 0, total_bytes = 0, total_ignored = 0\<rparr>"

text \<open>
  The body of the inner loop, lines 59 to 83, on the accumulators and the bar
  \<^verbatim>\<open>analyse_progression_bar\<close>.
\<close>

definition scan_obj ::
  "str_lower \<Rightarrow> string list option \<Rightarrow> scan_state \<times> tqdm \<Rightarrow> entry \<Rightarrow> scan_state \<times> tqdm" where
  "scan_obj lower exts sb obj =
     (let s = fst sb; analyse_progression_bar = snd sb;
          key = Key obj; size = Size obj; folder = parent (Path key) in
      if endswith key ''/'' then sb
      else if truthy exts \<and> lower (suffix (Path key)) \<notin> set (the exts) then
        (s\<lparr>stats := modify (\<lambda>v. v\<lparr>ignored := ignored v + 1\<rparr>) folder (stats s),
           total_ignored := total_ignored s + 1\<rparr>,
         analyse_progression_bar)
      else
        (s\<lparr>stats := modify (\<lambda>v. v\<lparr>bytes := bytes v + size\<rparr>) folder
                      (modify (\<lambda>v. v\<lparr>files := files v + 1\<rparr>) folder (stats s)),
           total_files := total_files s + 1,
           total_bytes := total_bytes s + size\<rparr>,
         update 1 analyse_progression_bar))"

fun scan_page ::
  "str_lower \<Rightarrow> string list option \<Rightarrow> scan_state \<times> tqdm \<Rightarrow> entry list \<Rightarrow> scan_state \<times> tqdm" where
  "scan_page lower exts sb [] = sb"
| "scan_page lower exts sb (obj # objs) = scan_page lower exts (scan_obj lower exts sb obj) objs"

fun scan_pages ::
  "str_lower \<Rightarrow> string list option \<Rightarrow> scan_state \<times> tqdm \<Rightarrow> page list \<Rightarrow> scan_state \<times> tqdm" where
  "scan_pages lower exts sb [] = sb"
| "scan_pages lower exts sb (pg # pgs) = scan_pages lower exts (scan_page lower exts sb (contents pg)) pgs"

text \<open>Lines 48 to 83: the accumulators and the bar when the listing is exhausted.\<close>

definition scan :: "str_lower \<Rightarrow> bool \<Rightarrow> string list option \<Rightarrow> page list \<Rightarrow> scan_state \<times> tqdm" where
  "scan lower q exts pgs = scan_pages lower exts (scan_init, new_tqdm None q) pgs"

section \<open>The transfer pass\<close>

text \<open>
  What the program does to the outside: it builds the client, starts an enumeration of
  the prefix, creates local directories and downloads objects. The bucket and the
  endpoint are constants of the \<^verbatim>\<open>config\<close> module and are left out of the actions.
  The outside answers \<^verbatim>\<open>mkdir\<close> and \<^verbatim>\<open>download_file\<close> through \<open>io\<close>: given the
  actions done so far and the next one, \<open>None\<close> when it succeeds and the exception
  when it raises. The pages of an enumeration are given as a finite list.
\<close>

datatype action =
  CreateClient
  | Paginate string
  | Mkdir string
  | DownloadFile string string

type_synonym world = "action list"

type_synonym outside = "world \<Rightarrow> action \<Rightarrow> error option"

record transfer_state =
  downloaded_files :: int
  downloaded_bytes :: int

text \<open>
  The body of the inner loop, lines 98 to 123, on the counters and the bar
  \<^verbatim>\<open>progress_bar\<close>. An exception leaves the actions done so far and nothing else.
\<close>

definition transfer_obj ::
  "str_lower \<Rightarrow> outside \<Rightarrow> string list option \<Rightarrow> path \<Rightarrow> world \<Rightarrow> transfer_state \<times> tqdm \<Rightarrow> entry
     \<Rightarrow> world \<times> (error + transfer_state \<times> tqdm)" where
  "transfer_obj lower io exts DEST_ROOT w tb obj =
     (let t = fst tb; progress_bar = snd tb; key = Key obj; size = Size obj in
      if endswith key ''/'' then (w, Inr tb)
      else if truthy exts \<and> lower (suffix (Path key)) \<notin> set (the exts) then (w, Inr tb)
      else
        (let local_path = truediv DEST_ROOT key;
             mk = Mkdir (str (parent local_path)) in
         case io w mk of
           Some e \<Rightarrow> (w, Inl e)
         | None \<Rightarrow>
             (let w1 = w @ [mk];
                  dl = DownloadFile key (str local_path) in
              case io w1 dl of
                Some e \<Rightarrow> (w1, Inl e)
              | None \<Rightarrow>
                  (w1 @ [dl],
                   Inr (t\<lparr>downloaded_bytes := downloaded_bytes t + size,
                          downloaded_files := downloaded_files t + 1\<rparr>,
                        update size (set_postfix (downloaded_files t + 1) progress_bar))))))"

fun transfer_page ::
  "str_lower \<Rightarrow> outside \<Rightarrow> string list option \<Rightarrow> path \<Rightarrow> world \<Rightarrow> transfer_state \<times> tqdm \<Rightarrow> entry list
     \<Rightarrow> world \<times> (error + transfer_state \<times> tqdm)" where
  "transfer_page lower io exts DEST_ROOT w tb [] = (w, Inr tb)"
| "transfer_page lower io exts DEST_ROOT w tb (obj # objs) =
     (case transfer_obj lower io exts DEST_ROOT w tb obj of
        (w', Inl e) \<Rightarrow> (w', Inl e)
      | (w', Inr tb') \<Rightarrow> transfer_page lower io exts DEST_ROOT w' tb' objs)"

fun transfer_pages ::
  "str_lower \<Rightarrow> outside \<Rightarrow> string list option \<Rightarrow> path \<Rightarrow> world \<Rightarrow> transfer_state \<times> tqdm \<Rightarrow> page list
     \<Rightarrow> world \<times> (error + transfer_state \<times> tqdm)" where
  "transfer_pages lower io exts DEST_ROOT w tb [] = (w, Inr tb)"
| "transfer_pages lower io exts DEST_ROOT w tb (pg # pgs) =
     (case transfer_page lower io exts DEST_ROOT w tb (contents pg) of
        (w', Inl e) \<Rightarrow> (w', Inl e)
      | (w', Inr tb') \<Rightarrow> transfer_pages lower io exts DEST_ROOT w' tb' pgs)"

text \<open>Lines 89 and 90.\<close>

definition transfer_init :: transfer_state where
  "transfer_init = \<lparr>downloaded_files = 0, downloaded_bytes = 0\<rparr>"

text \<open>
  Lines 93 to 123: the second enumeration, with its bar, from the world \<open>w\<close>.
\<close>

definition transfer ::
  "str_lower \<Rightarrow> outside \<Rightarrow> bool \<Rightarrow> string list option \<Rightarrow> path \<Rightarrow> int \<Rightarrow> world \<Rightarrow> page list
     \<Rightarrow> world \<times> (error + transfer_state \<times> tqdm)" where
  "transfer lower io q exts DEST_ROOT total_bytes_scanned w pgs =
     transfer_pages lower io exts DEST_ROOT w
       (transfer_init, new_tqdm (Some total_bytes_scanned) q) pgs"

section \<open>The report\<close>

text \<open>
  The printed lines, with the numbers they show. Sizes are kept in bytes: the division
  by \<^verbatim>\<open>1024**3\<close> and the two-decimal formatting are floating point and are not part of
  the model, nor is \<^verbatim>\<open>DEST_ROOT.resolve()\<close>, which reads the file system.
\<close>

datatype line =
  Header string
  | FolderName string
  | FolderFiles int
  | FolderSize int
  | FolderIgnored int
  | Blank
  | TotalHeader
  | TotalFiles int
  | TotalSize int
  | TotalIgnored int
  | DownloadedOne int path
  | DownloadedMany int int path

text \<open>
  \<^verbatim>\<open>sorted(stats)\<close>: the keys of the dictionary, sorted by the order of \<^verbatim>\<open>Path\<close>
  objects, which compares their \<^verbatim>\<open>_parts\<close>.
\<close>

definition sorted_folders :: "stats_dict \<Rightarrow> path list" where
  "sorted_folders st = sort_key parts (map fst st)"

definition getitem :: "stats_dict \<Rightarrow> path \<Rightarrow> folder_stats" where
  "getitem st folder = (case lookup st folder of None \<Rightarrow> zero_stats | Some v \<Rightarrow> v)"

definition folder_lines :: "stats_dict \<Rightarrow> path \<Rightarrow> line list" where
  "folder_lines st folder =
     [FolderName (str folder),
      FolderFiles (files (getitem st folder)),
      FolderSize (bytes (getitem st folder)),
      FolderIgnored (ignored (getitem st folder)),
      Blank]"

text \<open>Lines 130 to 146: the header, the folders when asked for, the totals.\<close>

definition report_top :: "args \<Rightarrow> scan_state \<Rightarrow> line list" where
  "report_top a s =
     [Header (PREFIX a)]
     @ (if details a then concat (map (folder_lines (stats s)) (sorted_folders (stats s)))
        else [])
     @ [TotalHeader, TotalFiles (total_files s), TotalSize (total_bytes s),
        TotalIgnored (total_ignored s)]"

text \<open>
  Lines 130 to 151. The last line reads \<^verbatim>\<open>DEST_ROOT\<close>, which is unbound when the
  validation did not bind it.
\<close>

definition report :: "args \<Rightarrow> scan_state \<Rightarrow> transfer_state \<Rightarrow> path option \<Rightarrow> error + line list" where
  "report a s t DEST_ROOT =
     (if download a then
        (case DEST_ROOT of
           None \<Rightarrow> Inl NameError
         | Some d \<Rightarrow>
             Inr (report_top a s
                  @ [if downloaded_files t = 1 then DownloadedOne (downloaded_bytes t) d
                     else DownloadedMany (downloaded_files t) (downloaded_bytes t) d]))
      else Inr (report_top a s))"

section \<open>The program\<close>

text \<open>
  What a run that reaches the end leaves: both sets of accumulators and the printed
  report. \<open>main\<close> is the script from top to bottom; \<open>listing1\<close> and \<open>listing2\<close> are
  the pages of the first and of the second enumeration.
\<close>

record final =
  scanned :: scan_state
  transferred :: transfer_state
  printed :: "line list"

definition main :: "str_lower \<Rightarrow> outside \<Rightarrow> args \<Rightarrow> page list \<Rightarrow> page list \<Rightarrow> world \<times> (error + final)" where
  "main lower io a listing1 listing2 =
     (case validate a of
        Inl e \<Rightarrow> ([], Inl e)
      | Inr DEST_ROOT \<Rightarrow>
          (let exts = normalise_extensions lower (extensions a);
               w1 = [CreateClient, Paginate (PREFIX a)];
               s = fst (scan lower (quiet a) exts listing1);
               finish = (\<lambda>w t. case report a s t DEST_ROOT of
                                   Inl e \<Rightarrow> (w, Inl e)
                                 | Inr out \<Rightarrow>
                                     (w, Inr \<lparr>scanned = s, transferred = t, printed = out\<rparr>))
           in
           if download a then
             (case DEST_ROOT of
                None \<Rightarrow> (w1 @ [Paginate (PREFIX a)], Inl NameError)
              | Some d \<Rightarrow>
                  (case transfer lower io (quiet a) exts d (total_bytes s)
                          (w1 @ [Paginate (PREFIX a)]) listing2 of
                     (w2, Inl e) \<Rightarrow> (w2, Inl e)
                   | (w2, Inr tb) \<Rightarrow> finish w2 (fst tb)))
           else finish w1 transfer_init))"

section \<open>Notions used in the statements\<close>

text \<open>The three sums over the dictionary against the three global totals.\<close>

definition sums_ok :: "scan_state \<Rightarrow> bool" where
  "sums_ok s =
     (total_files s = (\<Sum>p\<leftarrow>stats s. files (snd p)) \<and>
      total_bytes s = (\<Sum>p\<leftarrow>stats s. bytes (snd p)) \<and>
      total_ignored s = (\<Sum>p\<leftarrow>stats s. ignored (snd p)))"

text \<open>
  The suffix as the specification words it: the final \<^verbatim>\<open>/\<close>-separated segment of the
  key from its last \<^verbatim>\<open>.\<close> onward, empty when the segment has no \<^verbatim>\<open>.\<close>.
\<close>

definition spec_suffix :: "string \<Rightarrow> string" where
  "spec_suffix key =
     (let seg = last (split CHR ''/'' key); i = rfind seg CHR ''.'' in
      if i < 0 then [] else drop (nat i) seg)"

text \<open>
  The same, but only when the last \<^verbatim>\<open>.\<close> is neither the first nor the last character
  of the segment; empty otherwise.
\<close>

definition segment_suffix :: "string \<Rightarrow> string" where
  "segment_suffix key =
     (let seg = last (split CHR ''/'' key); i = rfind seg CHR ''.'' in
      if 0 < i \<and> i < int (length seg) - 1 then drop (nat i) seg else [])"

text \<open>
  What parsing guarantees of a path: a root is the first part, and no other part holds
  a \<^verbatim>\<open>/\<close>.
\<close>

definition well_formed :: "path \<Rightarrow> bool" where
  "well_formed p =
     (if root p = [] then list_all (\<lambda>x. CHR ''/'' \<notin> set x) (parts p)
      else (root p = ''/'' \<or> root p = ''//'') \<and> parts p \<noteq> [] \<and> hd (parts p) = root p \<and>
           list_all (\<lambda>x. CHR ''/'' \<notin> set x) (tl (parts p)))"

text \<open>All the entries of a listing, in arrival order.\<close>

definition entries :: "page list \<Rightarrow> entry list" where
  "entries pgs = concat (map contents pgs)"

text \<open>
  The test written out in both loops: the key is not a directory marker and, when a
  filter is set, the lower-cased suffix is one of the extensions.
\<close>

definition counted :: "str_lower \<Rightarrow> string list option \<Rightarrow> entry \<Rightarrow> bool" where
  "counted lower exts obj =
     (\<not> endswith (Key obj) ''/'' \<and>
      \<not> (truthy exts \<and> lower (suffix (Path (Key obj))) \<notin> set (the exts)))"

text \<open>The downloads of a world: each key with the local path it was written to.\<close>

fun downloads :: "world \<Rightarrow> (string \<times> string) list" where
  "downloads [] = []"
| "downloads (DownloadFile key local_path # w) = (key, local_path) # downloads w"
| "downloads (_ # w) = downloads w"

text \<open>The folder names of a report, in the order they are printed.\<close>

fun folder_names :: "line list \<Rightarrow> string list" where
  "folder_names [] = []"
| "folder_names (FolderName nm # ls) = nm # folder_names ls"
| "folder_names (_ # ls) = folder_names ls"

text \<open>The result of a transfer pass without its bar.\<close>

definition erase :: "world \<times> (error + transfer_state \<times> tqdm) \<Rightarrow> world \<times> (error + transfer_state)" where
  "erase r = (fst r, map_sum id fst (snd r))"

text \<open>
  What is used of \<^verbatim>\<open>str.lower\<close>: on an ASCII string it is \<open>ascii_lower\<close>.
\<close>

definition lowers_ascii :: "str_lower \<Rightarrow> bool" where
  "lowers_ascii lower = (\<forall>s. ascii s \<longrightarrow> lower s = ascii_lower s)"

text \<open>
  The actions the transfer pass asks of the outside for one entry, a directory and a
  download for a counted entry and nothing for another, and for a list of entries.
\<close>

definition entry_actions :: "str_lower \<Rightarrow> string list option \<Rightarrow> path \<Rightarrow> entry \<Rightarrow> action list" where
  "entry_actions lower exts d obj =
     (if counted lower exts obj
      then [Mkdir (str (parent (truediv d (Key obj)))),
            DownloadFile (Key obj) (str (truediv d (Key obj)))]
      else [])"

definition actions_for :: "str_lower \<Rightarrow> string list option \<Rightarrow> path \<Rightarrow> entry list \<Rightarrow> action list" where
  "actions_for lower exts d objs = concat (map (entry_actions lower exts d) objs)"

text \<open>The outside accepts a list of actions one after the other, from the world \<open>w\<close>.\<close>

fun all_accepted :: "outside \<Rightarrow> world \<Rightarrow> action list \<Rightarrow> bool" where
  "all_accepted io w [] = True"
| "all_accepted io w (act # acts) = (io w act = None \<and> all_accepted io (w @ [act]) acts)"

text \<open>An outside where every action succeeds, and one where one action raises.\<close>

definition always_ok :: outside where
  "always_ok w act = None"


section \<open>Properties of strings and paths\<close>

lemma split_not_Nil: "split c s \<noteq> []"
  by (induction s) (auto split: list.splits)

lemma split_single_Nil: "split c s = [[]] \<longleftrightarrow> s = []"
  by (cases s) (auto simp: split_not_Nil split: list.splits)

lemma split_no_sep: "c \<notin> set s \<Longrightarrow> split c s = [s]"
  by (induction s) auto

lemma last_split_dropWhile: "last (split c (dropWhile (\<lambda>x. x = c) s)) = last (split c s)"
  by (induction s) (simp_all add: split_not_Nil)

lemma last_split_Nil_iff: "last (split c s) = [] \<longleftrightarrow> s = [] \<or> last s = c"
  by (induction s) (auto simp: split_not_Nil split_single_Nil split: list.splits)

lemma last_filter_keep: "xs \<noteq> [] \<Longrightarrow> P (last xs) \<Longrightarrow> last (filter P xs) = last xs"
  by (cases xs rule: rev_cases) simp_all

lemma endswith_sep: "endswith s [c] \<longleftrightarrow> s \<noteq> [] \<and> last s = c"
proof (cases s rule: rev_cases)
  case Nil
  then show ?thesis by (simp add: endswith_def)
next
  case (snoc ys y)
  then show ?thesis by (auto simp: endswith_def)
qed

text \<open>
  For a key that is not a directory marker and whose last segment is not \<^verbatim>\<open>.\<close>, the
  name of the parsed path is the last segment of the key as written.
\<close>

lemma name_Path:
  assumes "\<not> endswith key ''/''" and "last (split CHR ''/'' key) \<noteq> ''.''"
  shows "name (Path key) = last (split CHR ''/'' key)"
proof (cases "key = []")
  case True
  then show ?thesis by (simp add: Path_def name_def)
next
  case False
  let ?seg = "last (split CHR ''/'' key)"
  let ?ok = "\<lambda>x. x \<noteq> [] \<and> x \<noteq> ''.''"
  from False assms(1) have "?seg \<noteq> []"
    by (simp add: last_split_Nil_iff endswith_sep)
  with assms(2) have ok: "?ok ?seg" by simp
  obtain rt rel where sr: "splitroot key = (rt, rel)" by (cases "splitroot key")
  have rel: "last (split CHR ''/'' rel) = ?seg"
    using sr by (auto simp: splitroot_def Let_def last_split_dropWhile split: if_splits)
  let ?parsed = "if CHR ''/'' \<in> set rel then filter ?ok (split CHR ''/'' rel)
                 else if rel \<noteq> [] \<and> rel \<noteq> ''.'' then [rel] else []"
  have all: "?parsed = filter ?ok (split CHR ''/'' rel)"
    by (simp add: split_no_sep)
  have l: "last ?parsed = ?seg"
    unfolding all using ok rel by (simp add: last_filter_keep split_not_Nil)
  have ne: "?parsed \<noteq> []"
    unfolding all using ok rel last_in_set [OF split_not_Nil, of "CHR ''/''" rel]
    by (auto simp: filter_empty_conv)
  have "Path key = \<lparr>root = rt, parts = (if rt \<noteq> [] then [rt] else []) @ ?parsed\<rparr>"
    using False sr by (simp add: Path_def)
  then show ?thesis
    using l ne by (simp add: name_def)
qed

lemma suffix_Path:
  assumes "\<not> endswith key ''/''" and "last (split CHR ''/'' key) \<noteq> ''.''"
  shows "suffix (Path key) = segment_suffix key"
  using assms by (simp add: suffix_def segment_suffix_def name_Path)

text \<open>
  Folders are compared as records here and by their \<^verbatim>\<open>_parts\<close> in the program; on
  the parents of parsed keys the two agree.
\<close>

lemma split_elems_no_sep: "x \<in> set (split c s) \<Longrightarrow> c \<notin> set x"
proof (induction s arbitrary: x)
  case Nil
  then show ?case by simp
next
  case (Cons a s)
  show ?case
  proof (cases "a = c")
    case True
    with Cons show ?thesis by auto
  next
    case False
    obtain y ys where y: "split c s = y # ys"
      using split_not_Nil [of c s] by (cases "split c s") auto
    with Cons.prems False have "x = a # y \<or> x \<in> set ys" by simp
    then show ?thesis
      using Cons.IH [of y] Cons.IH [of x] y False by auto
  qed
qed

lemma splitroot_cases:
  "splitroot s = (rt, rel) \<Longrightarrow> rt = [] \<or> rt = ''/'' \<or> rt = ''//''"
  by (auto simp: splitroot_def Let_def split: if_splits)

lemma well_formed_Path: "well_formed (Path s)"
proof (cases "s = []")
  case True
  then show ?thesis by (simp add: Path_def well_formed_def)
next
  case False
  obtain rt rel where sr: "splitroot s = (rt, rel)" by (cases "splitroot s")
  let ?parsed = "if CHR ''/'' \<in> set rel
                 then filter (\<lambda>x. x \<noteq> [] \<and> x \<noteq> ''.'') (split CHR ''/'' rel)
                 else if rel \<noteq> [] \<and> rel \<noteq> ''.'' then [rel] else []"
  have p: "Path s = \<lparr>root = rt, parts = (if rt \<noteq> [] then [rt] else []) @ ?parsed\<rparr>"
    using False sr by (simp add: Path_def)
  have ok: "list_all (\<lambda>x. CHR ''/'' \<notin> set x) ?parsed"
    by (auto simp: list_all_iff dest: split_elems_no_sep)
  show ?thesis
    using splitroot_cases [OF sr] ok unfolding p well_formed_def by auto
qed

lemma well_formed_parent: "well_formed p \<Longrightarrow> well_formed (parent p)"
proof (cases "length (parts p) = 1 \<and> root p \<noteq> []")
  case True
  assume "well_formed p"
  with True show ?thesis by (simp add: parent_def)
next
  case False
  assume wf: "well_formed p"
  have b: "list_all P xs \<Longrightarrow> list_all P (butlast xs)" for P and xs :: "string list"
    by (auto simp: list_all_iff dest: in_set_butlastD)
  show ?thesis
  proof (cases "root p = []")
    case True
    with wf False show ?thesis by (simp add: parent_def well_formed_def b)
  next
    case r: False
    with wf obtain x xs where xs: "parts p = x # xs" by (cases "parts p") (auto simp: well_formed_def)
    with False r have "xs \<noteq> []" by auto
    with wf r xs show ?thesis
      using False by (auto simp: parent_def well_formed_def b)
  qed
qed

lemma well_formed_eq:
  assumes "well_formed p" and "well_formed q" and "parts p = parts q"
  shows "p = q"
proof -
  have r: "root x = (if parts x \<noteq> [] \<and> CHR ''/'' \<in> set (hd (parts x)) then hd (parts x) else [])"
    if "well_formed x" for x :: path
    using that by (cases "parts x") (auto simp: well_formed_def split: if_splits)
  from r [OF assms(1)] r [OF assms(2)] assms(3) have "root p = root q" by simp
  with assms(3) show ?thesis by simp
qed

lemma folder_eq_iff:
  "parent (Path k) = parent (Path k') \<longleftrightarrow> parts (parent (Path k)) = parts (parent (Path k'))"
  using well_formed_eq [OF well_formed_parent [OF well_formed_Path]
      well_formed_parent [OF well_formed_Path]]
  by auto

section \<open>The sum invariant\<close>

lemma sum_modify:
  assumes "g zero_stats = (0::int)"
  shows "(\<Sum>p\<leftarrow>modify f k al. g (snd p)) =
         (\<Sum>p\<leftarrow>al. g (snd p)) + g (f (getitem al k)) - g (getitem al k)"
  using assms by (induction al) (auto simp: getitem_def)

lemma fst_set_modify: "fst ` set (modify f k al) = insert k (fst ` set al)"
  by (induction al) force+

lemma distinct_modify: "distinct (map fst al) \<Longrightarrow> distinct (map fst (modify f k al))"
  by (induction al) (auto simp: fst_set_modify)

lemma sums_ok_scan_obj: "sums_ok (fst sb) \<Longrightarrow> sums_ok (fst (scan_obj lower exts sb obj))"
  by (simp add: scan_obj_def sums_ok_def Let_def sum_modify zero_stats_def)

lemma sums_ok_scan_page: "sums_ok (fst sb) \<Longrightarrow> sums_ok (fst (scan_page lower exts sb objs))"
  by (induction objs arbitrary: sb) (simp_all add: sums_ok_scan_obj)

lemma sums_ok_scan_pages: "sums_ok (fst sb) \<Longrightarrow> sums_ok (fst (scan_pages lower exts sb pgs))"
  by (induction pgs arbitrary: sb) (simp_all add: sums_ok_scan_page)

lemma distinct_scan_obj:
  "distinct (map fst (stats (fst sb))) \<Longrightarrow> distinct (map fst (stats (fst (scan_obj lower exts sb obj))))"
  by (simp add: scan_obj_def Let_def distinct_modify)

lemma distinct_scan_page:
  "distinct (map fst (stats (fst sb))) \<Longrightarrow> distinct (map fst (stats (fst (scan_page lower exts sb objs))))"
  by (induction objs arbitrary: sb) (simp_all add: distinct_scan_obj)

lemma distinct_scan_pages:
  "distinct (map fst (stats (fst sb))) \<Longrightarrow> distinct (map fst (stats (fst (scan_pages lower exts sb pgs))))"
  by (induction pgs arbitrary: sb) (simp_all add: distinct_scan_page)

text \<open>
  C1. For every finite list of pages and every filter, when the scan pass has consumed
  the whole list, the total number of files, the total number of bytes and the total
  number of ignored entries are the sums of the files, bytes and ignored counters over
  the folders of the dictionary, in which every folder occurs once.
\<close>

theorem scan_sum_invariant:
  "total_files (fst (scan lower q exts pgs)) = (\<Sum>p\<leftarrow>stats (fst (scan lower q exts pgs)). files (snd p)) \<and>
   total_bytes (fst (scan lower q exts pgs)) = (\<Sum>p\<leftarrow>stats (fst (scan lower q exts pgs)). bytes (snd p)) \<and>
   total_ignored (fst (scan lower q exts pgs)) = (\<Sum>p\<leftarrow>stats (fst (scan lower q exts pgs)). ignored (snd p)) \<and>
   distinct (map fst (stats (fst (scan lower q exts pgs))))"
proof -
  have "sums_ok (fst (scan_init, new_tqdm None q))"
    by (simp add: sums_ok_def scan_init_def)
  then have "sums_ok (fst (scan lower q exts pgs))"
    unfolding scan_def by (rule sums_ok_scan_pages)
  moreover have "distinct (map fst (stats (fst (scan_init, new_tqdm None q))))"
    by (simp add: scan_init_def)
  then have "distinct (map fst (stats (fst (scan lower q exts pgs))))"
    unfolding scan_def by (rule distinct_scan_pages)
  ultimately show ?thesis by (simp add: sums_ok_def)
qed

section \<open>Directory markers\<close>

text \<open>
  C5. An entry whose key ends with \<^verbatim>\<open>/\<close> leaves everything as it was, whatever the
  filter: the scan lower pass returns the same dictionary, totals and bar, and the transfer
  pass returns the same world, counters and bar without raising.
\<close>

theorem directory_marker_skipped:
  assumes "endswith (Key obj) ''/''"
  shows "scan_obj lower exts sb obj = sb \<and>
         transfer_obj lower io exts DEST_ROOT w tb obj = (w, Inr tb)"
  using assms by (simp add: scan_obj_def transfer_obj_def)

theorem directory_marker_skipped_witness:
  "endswith (Key \<lparr>Key = ''data/b/'', Size = 0\<rparr>) ''/'' \<and>
   scan_obj ascii_lower (Some [''.nc'']) (scan_init, new_tqdm None False) \<lparr>Key = ''data/b/'', Size = 0\<rparr>
     = (scan_init, new_tqdm None False) \<and>
   transfer_obj ascii_lower always_ok (Some [''.nc'']) (Path ''out'') [CreateClient]
       (transfer_init, new_tqdm (Some 0) False) \<lparr>Key = ''data/b/'', Size = 0\<rparr>
     = ([CreateClient], Inr (transfer_init, new_tqdm (Some 0) False))"
proof -
  have h: "endswith (Key \<lparr>Key = ''data/b/'', Size = 0\<rparr>) ''/''"
    by (simp add: endswith_def)
  show ?thesis
    using h directory_marker_skipped [OF h] by simp
qed

section \<open>The suffix tested by the filter\<close>

lemma lowers_ascii_ascii_lower: "lowers_ascii ascii_lower"
  by (simp add: lowers_ascii_def)

lemma lowers_ascii_examples:
  assumes "lowers_ascii lower"
  shows "lower ''.NC'' = ''.nc''" and "lower ''.tar'' = ''.tar''"
proof -
  have a: "ascii ''.NC''" "ascii ''.tar''"
    by (simp_all add: ascii_def)
  have l: "ascii_lower ''.NC'' = ''.nc''" "ascii_lower ''.tar'' = ''.tar''"
    by (simp_all add: ascii_lower_def ascii_lower_char_def char_of_eq_iff)
  from assms a l show "lower ''.NC'' = ''.nc''" and "lower ''.tar'' = ''.tar''"
    by (simp_all add: lowers_ascii_def)
qed

text \<open>
  C3, as the code has it. For every key that is not a directory marker and whose final
  \<^verbatim>\<open>/\<close>-separated segment is not \<^verbatim>\<open>.\<close> alone, the suffix of the path is the final
  segment from its last \<^verbatim>\<open>.\<close> onward when that \<^verbatim>\<open>.\<close> is neither the first nor the
  last character of the segment, and empty otherwise; with a filter set, the entry is
  counted when \<^verbatim>\<open>str.lower\<close> of that suffix is in the filter and ignored when it is
  not. With the filter \<^verbatim>\<open>.nc\<close>, \<^verbatim>\<open>a/b/data.NC\<close> is counted and \<^verbatim>\<open>a/b/data.tar\<close> is
  ignored.
\<close>

theorem suffix_filter_test:
  assumes "\<not> endswith (Key obj) ''/''"
      and "last (split CHR ''/'' (Key obj)) \<noteq> ''.''"
      and "exts \<noteq> []"
      and "lowers_ascii lower"
  shows "suffix (Path (Key obj)) = segment_suffix (Key obj) \<and>
         total_files (fst (scan_obj lower (Some exts) sb obj)) =
           total_files (fst sb) + (if lower (segment_suffix (Key obj)) \<in> set exts then 1 else 0) \<and>
         total_ignored (fst (scan_obj lower (Some exts) sb obj)) =
           total_ignored (fst sb) + (if lower (segment_suffix (Key obj)) \<in> set exts then 0 else 1) \<and>
         fst (scan lower q (Some [''.nc'']) [Some [\<lparr>Key = ''a/b/data.NC'', Size = sz\<rparr>]]) =
           \<lparr>stats = [(Path ''a/b'', \<lparr>files = 1, bytes = sz, ignored = 0\<rparr>)],
            total_files = 1, total_bytes = sz, total_ignored = 0\<rparr> \<and>
         fst (scan lower q (Some [''.nc'']) [Some [\<lparr>Key = ''a/b/data.tar'', Size = sz\<rparr>]]) =
           \<lparr>stats = [(Path ''a/b'', \<lparr>files = 0, bytes = 0, ignored = 1\<rparr>)],
            total_files = 0, total_bytes = 0, total_ignored = 1\<rparr>"
proof -
  have s: "suffix (Path (Key obj)) = segment_suffix (Key obj)"
    using assms(1,2) by (rule suffix_Path)
  have f: "total_files (fst (scan_obj lower (Some exts) sb obj)) =
           total_files (fst sb) + (if lower (segment_suffix (Key obj)) \<in> set exts then 1 else 0)"
    using assms(1,3) by (simp add: scan_obj_def truthy_def s Let_def)
  have i: "total_ignored (fst (scan_obj lower (Some exts) sb obj)) =
           total_ignored (fst sb) + (if lower (segment_suffix (Key obj)) \<in> set exts then 0 else 1)"
    using assms(1,3) by (simp add: scan_obj_def truthy_def s Let_def)
  have p: "Path ''a/b/data.NC'' = \<lparr>root = [], parts = [''a'', ''b'', ''data.NC'']\<rparr>"
          "Path ''a/b/data.tar'' = \<lparr>root = [], parts = [''a'', ''b'', ''data.tar'']\<rparr>"
          "Path ''a/b'' = \<lparr>root = [], parts = [''a'', ''b'']\<rparr>"
    by (simp_all add: Path_def splitroot_def)
  note l = lowers_ascii_examples [OF assms(4)]
  have a: "fst (scan lower q (Some [''.nc'']) [Some [\<lparr>Key = ''a/b/data.NC'', Size = sz\<rparr>]]) =
           \<lparr>stats = [(Path ''a/b'', \<lparr>files = 1, bytes = sz, ignored = 0\<rparr>)],
            total_files = 1, total_bytes = sz, total_ignored = 0\<rparr>"
    by (simp add: scan_def contents_def scan_obj_def endswith_def truthy_def p l suffix_def
        name_def parent_def scan_init_def zero_stats_def)
  have b: "fst (scan lower q (Some [''.nc'']) [Some [\<lparr>Key = ''a/b/data.tar'', Size = sz\<rparr>]]) =
           \<lparr>stats = [(Path ''a/b'', \<lparr>files = 0, bytes = 0, ignored = 1\<rparr>)],
            total_files = 0, total_bytes = 0, total_ignored = 1\<rparr>"
    by (simp add: scan_def contents_def scan_obj_def endswith_def truthy_def p l suffix_def
        name_def parent_def scan_init_def zero_stats_def)
  from s f i a b show ?thesis by blast
qed

theorem suffix_filter_test_witness:
  "\<not> endswith (Key \<lparr>Key = ''a/b/data.NC'', Size = 7\<rparr>) ''/'' \<and>
   last (split CHR ''/'' (Key \<lparr>Key = ''a/b/data.NC'', Size = 7\<rparr>)) \<noteq> ''.'' \<and>
   [''.nc''] \<noteq> [] \<and>
   lowers_ascii ascii_lower \<and>
   suffix (Path ''a/b/data.NC'') = ''.NC'' \<and>
   total_files (fst (scan_obj ascii_lower (Some [''.nc'']) (scan_init, new_tqdm None False)
      \<lparr>Key = ''a/b/data.NC'', Size = 7\<rparr>)) = 1 \<and>
   total_ignored (fst (scan_obj ascii_lower (Some [''.nc'']) (scan_init, new_tqdm None False)
      \<lparr>Key = ''a/b/data.NC'', Size = 7\<rparr>)) = 0"
proof -
  have h1: "\<not> endswith (Key \<lparr>Key = ''a/b/data.NC'', Size = 7\<rparr>) ''/''"
    by (simp add: endswith_def)
  have h2: "last (split CHR ''/'' (Key \<lparr>Key = ''a/b/data.NC'', Size = 7\<rparr>)) \<noteq> ''.''"
    by simp
  have h3: "[''.nc''] \<noteq> []"
    by simp
  have l: "ascii_lower ''.NC'' = ''.nc''"
    by (simp add: ascii_lower_def ascii_lower_char_def char_of_eq_iff)
  have g: "segment_suffix ''a/b/data.NC'' = ''.NC''"
    by (simp add: segment_suffix_def)
  show ?thesis
    using h1 h2 lowers_ascii_ascii_lower
      suffix_filter_test [OF h1 h2 h3 lowers_ascii_ascii_lower,
        of "(scan_init, new_tqdm None False)" False 7]
    by (simp add: g l scan_init_def)
qed

text \<open>
  The suffix as the specification words it differs: for the key \<^verbatim>\<open>a/b/.nc\<close> the last
  \<^verbatim>\<open>.\<close> of the final segment starts the substring \<^verbatim>\<open>.nc\<close>, which is in the filter,
  but the path has no suffix and the scan pass ignores the entry. Key and filter are
  ASCII, where \<^verbatim>\<open>str.lower\<close> is \<open>ascii_lower\<close>.
\<close>

theorem suffix_filter_test_counterexample:
  "spec_suffix ''a/b/.nc'' = ''.nc'' \<and>
   suffix (Path ''a/b/.nc'') = [] \<and>
   ascii_lower (spec_suffix ''a/b/.nc'') \<in> set [''.nc''] \<and>
   fst (scan ascii_lower False (Some [''.nc'']) [Some [\<lparr>Key = ''a/b/.nc'', Size = 5\<rparr>]]) =
     \<lparr>stats = [(Path ''a/b'', \<lparr>files = 0, bytes = 0, ignored = 1\<rparr>)],
      total_files = 0, total_bytes = 0, total_ignored = 1\<rparr>"
  by code_simp

section \<open>Progress bars\<close>

lemma scan_obj_bar:
  "fst sb = fst sb' \<Longrightarrow> fst (scan_obj lower exts sb obj) = fst (scan_obj lower exts sb' obj)"
  by (simp add: scan_obj_def Let_def)

lemma scan_page_bar:
  "fst sb = fst sb' \<Longrightarrow> fst (scan_page lower exts sb objs) = fst (scan_page lower exts sb' objs)"
proof (induction objs arbitrary: sb sb')
  case Nil
  then show ?case by simp
next
  case (Cons obj objs)
  show ?case
    unfolding scan_page.simps by (rule Cons.IH) (rule scan_obj_bar [OF Cons.prems])
qed

lemma scan_pages_bar:
  "fst sb = fst sb' \<Longrightarrow> fst (scan_pages lower exts sb pgs) = fst (scan_pages lower exts sb' pgs)"
proof (induction pgs arbitrary: sb sb')
  case Nil
  then show ?case by simp
next
  case (Cons pg pgs)
  show ?case
    unfolding scan_pages.simps by (rule Cons.IH) (rule scan_page_bar [OF Cons.prems])
qed

lemma scan_quiet: "fst (scan lower q exts pgs) = fst (scan lower q' exts pgs)"
  unfolding scan_def by (rule scan_pages_bar) simp

lemma transfer_obj_bar:
  "fst tb = fst tb' \<Longrightarrow>
   erase (transfer_obj lower io exts d w tb obj) = erase (transfer_obj lower io exts d w tb' obj)"
  by (simp add: transfer_obj_def erase_def Let_def split: option.splits)

lemma erase_eqD:
  assumes "erase r = erase r'"
  shows "fst r = fst r'"
    and "(\<exists>e. snd r = Inl e \<and> snd r' = Inl e) \<or>
         (\<exists>tb tb'. snd r = Inr tb \<and> snd r' = Inr tb' \<and> fst tb = fst tb')"
  using assms by (auto simp: erase_def map_sum_def split: sum.splits)

lemma transfer_page_bar:
  "fst tb = fst tb' \<Longrightarrow>
   erase (transfer_page lower io exts d w tb objs) = erase (transfer_page lower io exts d w tb' objs)"
proof (induction objs arbitrary: w tb tb')
  case Nil
  then show ?case by (simp add: erase_def)
next
  case (Cons obj objs)
  obtain w1 r where r: "transfer_obj lower io exts d w tb obj = (w1, r)"
    by (cases "transfer_obj lower io exts d w tb obj")
  obtain w1' r' where r': "transfer_obj lower io exts d w tb' obj = (w1', r')"
    by (cases "transfer_obj lower io exts d w tb' obj")
  from transfer_obj_bar [OF Cons.prems, of lower io exts d w obj] r r'
  have e: "erase (w1, r) = erase (w1', r')" by simp
  from erase_eqD [OF e] have w: "w1' = w1" by simp
  from erase_eqD(2) [OF e] show ?case
  proof (elim disjE exE conjE)
    fix err assume "snd (w1, r) = Inl err" "snd (w1', r') = Inl err"
    then show ?thesis using r r' w by (simp add: erase_def)
  next
    fix tb1 tb1' assume "snd (w1, r) = Inr tb1" "snd (w1', r') = Inr tb1'" "fst tb1 = fst tb1'"
    then show ?thesis using r r' w Cons.IH [where tb = tb1 and tb' = tb1' and w = w1] by simp
  qed
qed

lemma transfer_pages_bar:
  "fst tb = fst tb' \<Longrightarrow>
   erase (transfer_pages lower io exts d w tb pgs) = erase (transfer_pages lower io exts d w tb' pgs)"
proof (induction pgs arbitrary: w tb tb')
  case Nil
  then show ?case by (simp add: erase_def)
next
  case (Cons pg pgs)
  obtain w1 r where r: "transfer_page lower io exts d w tb (contents pg) = (w1, r)"
    by (cases "transfer_page lower io exts d w tb (contents pg)")
  obtain w1' r' where r': "transfer_page lower io exts d w tb' (contents pg) = (w1', r')"
    by (cases "transfer_page lower io exts d w tb' (contents pg)")
  from transfer_page_bar [OF Cons.prems, of lower io exts d w "contents pg"] r r'
  have e: "erase (w1, r) = erase (w1', r')" by simp
  from erase_eqD [OF e] have w: "w1' = w1" by simp
  from erase_eqD(2) [OF e] show ?case
  proof (elim disjE exE conjE)
    fix err assume "snd (w1, r) = Inl err" "snd (w1', r') = Inl err"
    then show ?thesis using r r' w by (simp add: erase_def)
  next
    fix tb1 tb1' assume "snd (w1, r) = Inr tb1" "snd (w1', r') = Inr tb1'" "fst tb1 = fst tb1'"
    then show ?thesis using r r' w Cons.IH [where tb = tb1 and tb' = tb1' and w = w1] by simp
  qed
qed

lemma transfer_quiet:
  "erase (transfer lower io q exts d tot w pgs) = erase (transfer lower io q' exts d tot w pgs)"
  unfolding transfer_def by (rule transfer_pages_bar) simp


section \<open>The program, case by case\<close>

lemma main_usage_error: "validate a = Inl e \<Longrightarrow> main lower io a listing1 listing2 = ([], Inl e)"
  by (simp add: main_def)

lemma validate_Inr:
  "validate a = Inr D \<Longrightarrow>
   D = (if download a then Some (Path (the (dest a))) else None) \<and> download a = truthy (dest a)"
  by (auto simp: validate_def split: if_splits)

lemma main_no_download:
  assumes "validate a = Inr D" and "\<not> download a"
  shows "main lower io a listing1 listing2 =
         ([CreateClient, Paginate (PREFIX a)],
          Inr \<lparr>scanned = fst (scan lower (quiet a) (normalise_extensions lower (extensions a)) listing1),
               transferred = transfer_init,
               printed = report_top a
                 (fst (scan lower (quiet a) (normalise_extensions lower (extensions a)) listing1))\<rparr>)"
  using assms by (simp add: main_def Let_def report_def)

lemma main_download:
  assumes "validate a = Inr D" and "download a"
  shows "main lower io a listing1 listing2 =
         (let exts = normalise_extensions lower (extensions a);
              s = fst (scan lower (quiet a) exts listing1);
              d = Path (the (dest a)) in
          case transfer lower io (quiet a) exts d (total_bytes s)
                 [CreateClient, Paginate (PREFIX a), Paginate (PREFIX a)] listing2 of
            (w2, Inl e) \<Rightarrow> (w2, Inl e)
          | (w2, Inr tb) \<Rightarrow>
              (w2, Inr \<lparr>scanned = s, transferred = fst tb,
                        printed = report_top a s
                          @ [if downloaded_files (fst tb) = 1
                             then DownloadedOne (downloaded_bytes (fst tb)) d
                             else DownloadedMany (downloaded_files (fst tb))
                                    (downloaded_bytes (fst tb)) d]\<rparr>))"
proof -
  from validate_Inr [OF assms(1)] assms(2) have D: "D = Some (Path (the (dest a)))" by simp
  show ?thesis
    using assms D
    by (simp add: main_def Let_def report_def split: prod.splits sum.splits)
qed


lemma validate_quiet: "validate (a\<lparr>quiet := q\<rparr>) = validate a"
  by (simp add: validate_def)

lemma PREFIX_quiet: "PREFIX (a\<lparr>quiet := q\<rparr>) = PREFIX a"
  by (simp add: PREFIX_def)

lemma report_top_quiet: "report_top (a\<lparr>quiet := q\<rparr>) s = report_top a s"
  by (simp add: report_top_def PREFIX_quiet)

lemma main_quiet:
  "main lower io (a\<lparr>quiet := q\<rparr>) listing1 listing2 = main lower io (a\<lparr>quiet := q'\<rparr>) listing1 listing2"
proof (cases "validate a")
  case (Inl e)
  then show ?thesis by (simp add: main_usage_error validate_quiet)
next
  case (Inr D)
  let ?x = "normalise_extensions lower (extensions a)"
  have sq: "fst (scan lower q ?x listing1) = fst (scan lower q' ?x listing1)"
    by (rule scan_quiet)
  show ?thesis
  proof (cases "download a")
    case False
    then show ?thesis
      using Inr sq
      by (simp add: main_no_download [where D = D] validate_quiet report_top_quiet PREFIX_quiet Let_def)
  next
    case True
    let ?d = "Path (the (dest a))"
    let ?tot = "total_bytes (fst (scan lower q' ?x listing1))"
    let ?w = "[CreateClient, Paginate (PREFIX a), Paginate (PREFIX a)]"
    have e: "erase (transfer lower io q ?x ?d ?tot ?w listing2) =
             erase (transfer lower io q' ?x ?d ?tot ?w listing2)"
      by (rule transfer_quiet)
    obtain w1 r where r: "transfer lower io q ?x ?d ?tot ?w listing2 = (w1, r)"
      by (cases "transfer lower io q ?x ?d ?tot ?w listing2")
    obtain w1' r' where r': "transfer lower io q' ?x ?d ?tot ?w listing2 = (w1', r')"
      by (cases "transfer lower io q' ?x ?d ?tot ?w listing2")
    from e r r' have e': "erase (w1, r) = erase (w1', r')" by simp
    from erase_eqD [OF e'] have w: "w1' = w1" by simp
    have l: "main lower io (a\<lparr>quiet := q\<rparr>) listing1 listing2 =
             (case r of Inl e \<Rightarrow> (w1, Inl e)
              | Inr tb \<Rightarrow> (w1, Inr \<lparr>scanned = fst (scan lower q' ?x listing1), transferred = fst tb,
                        printed = report_top a (fst (scan lower q' ?x listing1))
                          @ [if downloaded_files (fst tb) = 1
                             then DownloadedOne (downloaded_bytes (fst tb)) ?d
                             else DownloadedMany (downloaded_files (fst tb))
                                    (downloaded_bytes (fst tb)) ?d]\<rparr>))"
      using Inr True r sq
      by (simp add: main_download [where D = D] validate_quiet report_top_quiet PREFIX_quiet Let_def)
    have l': "main lower io (a\<lparr>quiet := q'\<rparr>) listing1 listing2 =
             (case r' of Inl e \<Rightarrow> (w1, Inl e)
              | Inr tb \<Rightarrow> (w1, Inr \<lparr>scanned = fst (scan lower q' ?x listing1), transferred = fst tb,
                        printed = report_top a (fst (scan lower q' ?x listing1))
                          @ [if downloaded_files (fst tb) = 1
                             then DownloadedOne (downloaded_bytes (fst tb)) ?d
                             else DownloadedMany (downloaded_files (fst tb))
                                    (downloaded_bytes (fst tb)) ?d]\<rparr>))"
      using Inr True r' w
      by (simp add: main_download [where D = D] validate_quiet report_top_quiet PREFIX_quiet Let_def)
    from erase_eqD(2) [OF e'] show ?thesis
      unfolding l l' by (elim disjE exE conjE) simp_all
  qed
qed

text \<open>
  C9. The bars do not influence the computation: with and without \<^verbatim>\<open>--quiet\<close>, the
  scan lower pass ends with the same dictionary and totals, the transfer lower pass with the same
  world and the same counters or the same exception, and the whole program with the
  same result.
\<close>

theorem progress_does_not_alter_results:
  "fst (scan lower True exts pgs) = fst (scan lower False exts pgs) \<and>
   erase (transfer lower io True exts d tot w pgs) = erase (transfer lower io False exts d tot w pgs) \<and>
   main lower io (a\<lparr>quiet := True\<rparr>) listing1 listing2 =
     main lower io (a\<lparr>quiet := False\<rparr>) listing1 listing2"
  using scan_quiet [of lower True exts pgs False]
    transfer_quiet [of lower io True exts d tot w pgs False]
    main_quiet [where q = True and q' = False]
  by simp

section \<open>Usage validation\<close>

lemma transfer_obj_extends: "\<exists>w''. fst (transfer_obj lower io exts d w tb obj) = w @ w''"
  by (simp add: transfer_obj_def Let_def split: option.splits)

lemma transfer_page_extends: "\<exists>w''. fst (transfer_page lower io exts d w tb objs) = w @ w''"
proof (induction objs arbitrary: w tb)
  case Nil
  then show ?case by simp
next
  case (Cons obj objs)
  obtain w1 r where r: "transfer_obj lower io exts d w tb obj = (w1, r)"
    by (cases "transfer_obj lower io exts d w tb obj")
  from transfer_obj_extends [of lower io exts d w tb obj] r obtain u where u: "w1 = w @ u" by auto
  show ?case
  proof (cases r)
    case (Inl e)
    then show ?thesis using r u by simp
  next
    case (Inr tb1)
    from Cons.IH [where w = w1 and tb = tb1] obtain v where "fst (transfer_page lower io exts d w1 tb1 objs) = w1 @ v" ..
    then show ?thesis using r u Inr by simp
  qed
qed

lemma transfer_pages_extends: "\<exists>w''. fst (transfer_pages lower io exts d w tb pgs) = w @ w''"
proof (induction pgs arbitrary: w tb)
  case Nil
  then show ?case by simp
next
  case (Cons pg pgs)
  obtain w1 r where r: "transfer_page lower io exts d w tb (contents pg) = (w1, r)"
    by (cases "transfer_page lower io exts d w tb (contents pg)")
  from transfer_page_extends [of lower io exts d w tb "contents pg"] r obtain u where u: "w1 = w @ u"
    by auto
  show ?case
  proof (cases r)
    case (Inl e)
    then show ?thesis using r u by simp
  next
    case (Inr tb1)
    from Cons.IH [where w = w1 and tb = tb1] obtain v where "fst (transfer_pages lower io exts d w1 tb1 pgs) = w1 @ v" ..
    then show ?thesis using r u Inr by simp
  qed
qed

lemma main_starts_with_client:
  assumes "validate a = Inr D"
  shows "take 2 (fst (main lower io a listing1 listing2)) = [CreateClient, Paginate (PREFIX a)]"
proof (cases "download a")
  case False
  then show ?thesis using assms by (simp add: main_no_download [where D = D])
next
  case True
  let ?x = "normalise_extensions lower (extensions a)"
  let ?t = "transfer lower io (quiet a) ?x (Path (the (dest a)))
              (total_bytes (fst (scan lower (quiet a) ?x listing1)))
              [CreateClient, Paginate (PREFIX a), Paginate (PREFIX a)] listing2"
  obtain w2 r where r: "?t = (w2, r)" by (cases ?t)
  from transfer_pages_extends obtain u
    where "fst ?t = [CreateClient, Paginate (PREFIX a), Paginate (PREFIX a)] @ u"
    unfolding transfer_def by blast
  with r have w2: "w2 = [CreateClient, Paginate (PREFIX a), Paginate (PREFIX a)] @ u" by simp
  show ?thesis
    using assms True r w2
    by (cases r) (simp_all add: main_download [where D = D] Let_def)
qed

text \<open>
  C7, as the code has it. A destination counts as given when it is a non-empty string.
  When exactly one of the download flag and such a destination is given, the program
  ends with the exception of the bare \<^verbatim>\<open>raise\<close>, with no action on the outside and
  nothing printed. When both or neither are given, the validation raises nothing and
  the program goes on to build the client and start the first enumeration.
\<close>

theorem usage_validation:
  "(download a \<noteq> truthy (dest a) \<longrightarrow>
      main lower io a listing1 listing2 = ([], Inl RuntimeError)) \<and>
   (download a = truthy (dest a) \<longrightarrow>
      validate a = Inr (if download a then Some (Path (the (dest a))) else None) \<and>
      take 2 (fst (main lower io a listing1 listing2)) = [CreateClient, Paginate (PREFIX a)])"
proof (intro conjI impI)
  assume "download a \<noteq> truthy (dest a)"
  then have "validate a = Inl RuntimeError" by (auto simp: validate_def)
  then show "main lower io a listing1 listing2 = ([], Inl RuntimeError)"
    by (rule main_usage_error)
next
  assume "download a = truthy (dest a)"
  then show v: "validate a = Inr (if download a then Some (Path (the (dest a))) else None)"
    by (auto simp: validate_def)
  show "take 2 (fst (main lower io a listing1 listing2)) = [CreateClient, Paginate (PREFIX a)]"
    by (rule main_starts_with_client [OF v])
qed

theorem usage_validation_witness:
  "download \<lparr>prefix = ''data'', extensions = None, details = False, quiet = False,
             download = True, dest = None\<rparr>
     \<noteq> truthy (dest \<lparr>prefix = ''data'', extensions = None, details = False, quiet = False,
             download = True, dest = None\<rparr>) \<and>
   main ascii_lower always_ok \<lparr>prefix = ''data'', extensions = None, details = False, quiet = False,
             download = True, dest = None\<rparr> [Some [\<lparr>Key = ''data/f'', Size = 1\<rparr>]] []
     = ([], Inl RuntimeError) \<and>
   download \<lparr>prefix = ''data'', extensions = None, details = False, quiet = False,
             download = True, dest = Some ''out''\<rparr>
     = truthy (dest \<lparr>prefix = ''data'', extensions = None, details = False, quiet = False,
             download = True, dest = Some ''out''\<rparr>) \<and>
   take 2 (fst (main ascii_lower always_ok \<lparr>prefix = ''data'', extensions = None, details = False,
             quiet = False, download = True, dest = Some ''out''\<rparr>
             [Some [\<lparr>Key = ''data/f'', Size = 1\<rparr>]] [Some [\<lparr>Key = ''data/f'', Size = 1\<rparr>]]))
     = [CreateClient, Paginate ''data/'']"
proof -
  let ?a = "\<lparr>prefix = ''data'', extensions = None, details = False, quiet = False,
             download = True, dest = None\<rparr>"
  let ?b = "\<lparr>prefix = ''data'', extensions = None, details = False, quiet = False,
             download = True, dest = Some ''out''\<rparr>"
  have h1: "download ?a \<noteq> truthy (dest ?a)" by (simp add: truthy_def)
  have h2: "download ?b = truthy (dest ?b)" by (simp add: truthy_def)
  have p: "PREFIX ?b = ''data/''" by (simp add: PREFIX_def endswith_def)
  show ?thesis
    using h1 h2
      usage_validation [of ?a ascii_lower always_ok "[Some [\<lparr>Key = ''data/f'', Size = 1\<rparr>]]" "[]"]
      usage_validation [of ?b ascii_lower always_ok "[Some [\<lparr>Key = ''data/f'', Size = 1\<rparr>]]"
         "[Some [\<lparr>Key = ''data/f'', Size = 1\<rparr>]]"]
    by (simp add: p)
qed

text \<open>
  With the destination given as the empty string the claim as written fails both ways:
  with \<^verbatim>\<open>--download\<close> both are given and the program raises at once; without it one
  of the two is given and the program goes on.
\<close>

theorem usage_validation_counterexample:
  "download \<lparr>prefix = ''data'', extensions = None, details = False, quiet = False,
             download = True, dest = Some ''''\<rparr> \<and>
   dest \<lparr>prefix = ''data'', extensions = None, details = False, quiet = False,
             download = True, dest = Some ''''\<rparr> \<noteq> None \<and>
   main ascii_lower always_ok \<lparr>prefix = ''data'', extensions = None, details = False, quiet = False,
             download = True, dest = Some ''''\<rparr> [] [] = ([], Inl RuntimeError) \<and>
   \<not> download \<lparr>prefix = ''data'', extensions = None, details = False, quiet = False,
             download = False, dest = Some ''''\<rparr> \<and>
   dest \<lparr>prefix = ''data'', extensions = None, details = False, quiet = False,
             download = False, dest = Some ''''\<rparr> \<noteq> None \<and>
   fst (main ascii_lower always_ok \<lparr>prefix = ''data'', extensions = None, details = False, quiet = False,
             download = False, dest = Some ''''\<rparr> [] []) = [CreateClient, Paginate ''data/'']"
  by (simp add: main_def validate_def truthy_def PREFIX_def endswith_def report_def Let_def)

section \<open>The actions of the transfer pass\<close>

text \<open>
  The pass goes through a list of entries without an exception exactly when the outside
  accepts their actions one after the other; the world is then extended by them.
\<close>

lemma all_accepted_append:
  "all_accepted io w (xs @ ys) = (all_accepted io w xs \<and> all_accepted io (w @ xs) ys)"
  by (induction xs arbitrary: w) auto

lemma actions_for_append:
  "actions_for lower exts d (xs @ ys) = actions_for lower exts d xs @ actions_for lower exts d ys"
  by (simp add: actions_for_def)

lemma actions_for_Cons:
  "actions_for lower exts d (obj # objs) =
     entry_actions lower exts d obj @ actions_for lower exts d objs"
  by (simp add: actions_for_def)

lemma transfer_obj_not_counted:
  "\<not> counted lower exts obj \<Longrightarrow> transfer_obj lower io exts d w tb obj = (w, Inr tb)"
  by (auto simp: transfer_obj_def counted_def Let_def)





lemma entries_append: "entries (ps @ qs) = entries ps @ entries qs"
  by (simp add: entries_def)

lemma entries_Cons: "entries (pg # pgs) = contents pg @ entries pgs"
  by (simp add: entries_def)


text \<open>The converse: a pass that ends without an exception was accepted action by action.\<close>

lemma transfer_obj_Inr_actions:
  assumes "transfer_obj lower io exts d w tb obj = (w', Inr tb')"
  shows "w' = w @ entry_actions lower exts d obj \<and>
         all_accepted io w (entry_actions lower exts d obj)"
proof (cases "counted lower exts obj")
  case False
  with assms show ?thesis by (simp add: transfer_obj_not_counted entry_actions_def)
next
  case True
  with assms show ?thesis
    by (auto simp: transfer_obj_def counted_def entry_actions_def Let_def
        split: option.splits)
qed

lemma transfer_page_Inr_actions:
  assumes "transfer_page lower io exts d w tb objs = (w', Inr tb')"
  shows "w' = w @ actions_for lower exts d objs \<and>
         all_accepted io w (actions_for lower exts d objs)"
  using assms
proof (induction objs arbitrary: w tb)
  case Nil
  then show ?case by (simp add: actions_for_def)
next
  case (Cons obj objs)
  obtain w1 r where r: "transfer_obj lower io exts d w tb obj = (w1, r)"
    by (cases "transfer_obj lower io exts d w tb obj")
  from Cons.prems r obtain tb1 where r1: "r = Inr tb1"
    by (cases r) simp_all
  from Cons.prems r r1 have rest: "transfer_page lower io exts d w1 tb1 objs = (w', Inr tb')"
    by simp
  from transfer_obj_Inr_actions [OF r [unfolded r1]] Cons.IH [OF rest]
  show ?case by (simp add: actions_for_Cons all_accepted_append)
qed

lemma transfer_pages_Inr_actions:
  assumes "transfer_pages lower io exts d w tb pgs = (w', Inr tb')"
  shows "w' = w @ actions_for lower exts d (entries pgs) \<and>
         all_accepted io w (actions_for lower exts d (entries pgs))"
  using assms
proof (induction pgs arbitrary: w tb)
  case Nil
  then show ?case by (simp add: actions_for_def entries_def)
next
  case (Cons pg pgs)
  obtain w1 r where r: "transfer_page lower io exts d w tb (contents pg) = (w1, r)"
    by (cases "transfer_page lower io exts d w tb (contents pg)")
  from Cons.prems r obtain tb1 where r1: "r = Inr tb1"
    by (cases r) simp_all
  from Cons.prems r r1 have rest: "transfer_pages lower io exts d w1 tb1 pgs = (w', Inr tb')"
    by simp
  from transfer_page_Inr_actions [OF r [unfolded r1]] Cons.IH [OF rest]
  show ?case by (simp add: entries_Cons actions_for_append all_accepted_append)
qed

section \<open>A failure in the transfer pass\<close>






section \<open>The two passes classify alike\<close>

text \<open>
  The local path is \<^verbatim>\<open>DEST_ROOT / key\<close>: the parts of the key are appended to those
  of the destination, except for a key with a leading \<^verbatim>\<open>/\<close>, which is taken alone.
\<close>

lemma truediv_examples:
  "str (truediv (Path ''out'') ''data/a/f1.nc'') = ''out/data/a/f1.nc''"
  "str (truediv (Path ''out'') ''/data/a/f1.nc'') = ''/data/a/f1.nc''"
  by code_simp+

lemma downloads_append: "downloads (u @ v) = downloads u @ downloads v"
  by (induction u rule: downloads.induct) simp_all

lemma scan_obj_counts:
  "total_files (fst (scan_obj lower exts sb obj)) =
     total_files (fst sb) + (if counted lower exts obj then 1 else 0) \<and>
   total_bytes (fst (scan_obj lower exts sb obj)) =
     total_bytes (fst sb) + (if counted lower exts obj then Size obj else 0) \<and>
   total_ignored (fst (scan_obj lower exts sb obj)) =
     total_ignored (fst sb) +
       (if \<not> endswith (Key obj) ''/'' \<and> \<not> counted lower exts obj then 1 else 0)"
  by (simp add: scan_obj_def counted_def Let_def)

lemma scan_page_counts:
  "total_files (fst (scan_page lower exts sb objs)) =
     total_files (fst sb) + int (length (filter (counted lower exts) objs)) \<and>
   total_bytes (fst (scan_page lower exts sb objs)) =
     total_bytes (fst sb) + sum_list (map Size (filter (counted lower exts) objs)) \<and>
   total_ignored (fst (scan_page lower exts sb objs)) =
     total_ignored (fst sb) +
       int (length (filter (\<lambda>obj. \<not> endswith (Key obj) ''/'' \<and> \<not> counted lower exts obj) objs))"
proof (induction objs arbitrary: sb)
  case Nil
  then show ?case by simp
next
  case (Cons obj objs)
  show ?case
    using Cons.IH [where sb = "scan_obj lower exts sb obj"] scan_obj_counts [of lower exts sb obj]
    by simp
qed

lemma scan_pages_counts:
  "total_files (fst (scan_pages lower exts sb pgs)) =
     total_files (fst sb) + int (length (filter (counted lower exts) (entries pgs))) \<and>
   total_bytes (fst (scan_pages lower exts sb pgs)) =
     total_bytes (fst sb) + sum_list (map Size (filter (counted lower exts) (entries pgs))) \<and>
   total_ignored (fst (scan_pages lower exts sb pgs)) =
     total_ignored (fst sb) +
       int (length (filter (\<lambda>obj. \<not> endswith (Key obj) ''/'' \<and> \<not> counted lower exts obj)
                      (entries pgs)))"
proof (induction pgs arbitrary: sb)
  case Nil
  then show ?case by (simp add: entries_def)
next
  case (Cons pg pgs)
  show ?case
    using Cons.IH [where sb = "scan_page lower exts sb (contents pg)"]
      scan_page_counts [of lower exts sb "contents pg"]
    by (simp add: entries_def)
qed

lemma transfer_obj_Inr:
  assumes "transfer_obj lower io exts d w tb obj = (w', Inr tb')"
  shows "downloads w' =
           downloads w @ (if counted lower exts obj then [(Key obj, str (truediv d (Key obj)))] else []) \<and>
         downloaded_files (fst tb') =
           downloaded_files (fst tb) + (if counted lower exts obj then 1 else 0) \<and>
         downloaded_bytes (fst tb') =
           downloaded_bytes (fst tb) + (if counted lower exts obj then Size obj else 0)"
proof (cases "counted lower exts obj")
  case False
  then show ?thesis
    using assms by (auto simp: transfer_obj_def counted_def Let_def split: if_splits)
next
  case True
  then show ?thesis
    using assms
    by (auto simp: transfer_obj_def counted_def Let_def downloads_append split: option.splits)
qed

lemma transfer_page_Inr:
  assumes "transfer_page lower io exts d w tb objs = (w', Inr tb')"
  shows "downloads w' =
           downloads w @ map (\<lambda>obj. (Key obj, str (truediv d (Key obj))))
                             (filter (counted lower exts) objs) \<and>
         downloaded_files (fst tb') =
           downloaded_files (fst tb) + int (length (filter (counted lower exts) objs)) \<and>
         downloaded_bytes (fst tb') =
           downloaded_bytes (fst tb) + sum_list (map Size (filter (counted lower exts) objs))"
  using assms
proof (induction objs arbitrary: w tb)
  case Nil
  then show ?case by simp
next
  case (Cons obj objs)
  obtain w1 r where r: "transfer_obj lower io exts d w tb obj = (w1, r)"
    by (cases "transfer_obj lower io exts d w tb obj")
  from Cons.prems r obtain tb1 where r1: "r = Inr tb1"
    by (cases r) simp_all
  from Cons.prems r r1 have rest: "transfer_page lower io exts d w1 tb1 objs = (w', Inr tb')"
    by simp
  show ?case
    using Cons.IH [OF rest] transfer_obj_Inr [OF r [unfolded r1]]
    by simp
qed

lemma transfer_pages_Inr:
  assumes "transfer_pages lower io exts d w tb pgs = (w', Inr tb')"
  shows "downloads w' =
           downloads w @ map (\<lambda>obj. (Key obj, str (truediv d (Key obj))))
                             (filter (counted lower exts) (entries pgs)) \<and>
         downloaded_files (fst tb') =
           downloaded_files (fst tb) + int (length (filter (counted lower exts) (entries pgs))) \<and>
         downloaded_bytes (fst tb') =
           downloaded_bytes (fst tb) + sum_list (map Size (filter (counted lower exts) (entries pgs)))"
  using assms
proof (induction pgs arbitrary: w tb)
  case Nil
  then show ?case by (simp add: entries_def)
next
  case (Cons pg pgs)
  obtain w1 r where r: "transfer_page lower io exts d w tb (contents pg) = (w1, r)"
    by (cases "transfer_page lower io exts d w tb (contents pg)")
  from Cons.prems r obtain tb1 where r1: "r = Inr tb1"
    by (cases r) simp_all
  from Cons.prems r r1 have rest: "transfer_pages lower io exts d w1 tb1 pgs = (w', Inr tb')"
    by simp
  show ?case
    using Cons.IH [OF rest] transfer_page_Inr [OF r [unfolded r1]]
    by (simp add: entries_def)
qed

lemma truediv_relative_key:
  "\<not> startswith key ''/'' \<Longrightarrow>
   truediv d key = \<lparr>root = root d, parts = parts d @ parts (Path key)\<rparr>"
  by (cases key) (auto simp: truediv_def Path_def splitroot_def startswith_def Let_def)

lemma truediv_rooted_key: "startswith key ''/'' \<Longrightarrow> truediv d key = Path key"
  by (cases key) (auto simp: truediv_def Path_def splitroot_def startswith_def Let_def)

lemma downloads_entry_actions:
  "downloads (entry_actions lower exts d obj) =
     (if counted lower exts obj then [(Key obj, str (truediv d (Key obj)))] else [])"
  by (simp add: entry_actions_def)

lemma downloads_actions_for:
  "downloads (actions_for lower exts d objs) =
     map (\<lambda>obj. (Key obj, str (truediv d (Key obj)))) (filter (counted lower exts) objs)"
  by (induction objs)
    (simp_all add: actions_for_Cons actions_for_def [of _ _ _ "[]"] downloads_append
       downloads_entry_actions)

text \<open>
  C2. The scan pass counts an entry exactly when \<open>counted\<close> holds of it, and so its
  totals are the number and the sizes of the counted entries. A transfer pass that ends
  without an exception on the same listing has asked the outside, and been granted, a
  directory and a download for each counted entry in arrival order and nothing else;
  its file counter is their number and its byte counter the sum of their sizes. When
  the download flag is not set nothing is downloaded and both counters are zero at the
  end. The local path is \<^verbatim>\<open>DEST_ROOT / key\<close>: below the destination for a key without
  a leading \<^verbatim>\<open>/\<close>, and the key alone, whatever the destination, for a key with one.
  So with the prefix \<^verbatim>\<open>/\<close> and the destination \<^verbatim>\<open>out\<close> the object \<^verbatim>\<open>/etc/f.nc\<close> is
  written to \<^verbatim>\<open>/etc/f.nc\<close>, and the report names \<^verbatim>\<open>out\<close> as the place of the download.
\<close>

theorem transfer_downloads_what_scan_counts:
  assumes "transfer lower io q exts d tot w pgs = (w', Inr tb)"
  shows "total_files (fst (scan_obj lower exts sb obj)) =
           total_files (fst sb) + (if counted lower exts obj then 1 else 0) \<and>
         w' = w @ actions_for lower exts d (entries pgs) \<and>
         all_accepted io w (actions_for lower exts d (entries pgs)) \<and>
         downloads w' =
           downloads w @ map (\<lambda>obj. (Key obj, str (truediv d (Key obj))))
                             (filter (counted lower exts) (entries pgs)) \<and>
         downloaded_files (fst tb) = int (length (filter (counted lower exts) (entries pgs))) \<and>
         downloaded_bytes (fst tb) =
           sum_list (map Size (filter (counted lower exts) (entries pgs))) \<and>
         total_files (fst (scan lower q' exts pgs)) =
           int (length (filter (counted lower exts) (entries pgs))) \<and>
         total_bytes (fst (scan lower q' exts pgs)) =
           sum_list (map Size (filter (counted lower exts) (entries pgs))) \<and>
         total_ignored (fst (scan lower q' exts pgs)) =
           int (length (filter (\<lambda>obj. \<not> endswith (Key obj) ''/'' \<and> \<not> counted lower exts obj)
                          (entries pgs))) \<and>
         downloads (fst (main lower io (a\<lparr>download := False\<rparr>) listing1 listing2)) = [] \<and>
         (case snd (main lower io (a\<lparr>download := False\<rparr>) listing1 listing2) of
            Inl e \<Rightarrow> e = RuntimeError
          | Inr f \<Rightarrow> downloaded_files (transferred f) = 0 \<and> downloaded_bytes (transferred f) = 0) \<and>
         (\<not> startswith key ''/'' \<longrightarrow>
            truediv d key = \<lparr>root = root d, parts = parts d @ parts (Path key)\<rparr>) \<and>
         (startswith key' ''/'' \<longrightarrow> truediv d key' = Path key') \<and>
         main ascii_lower always_ok
           \<lparr>prefix = ''/'', extensions = None, details = False, quiet = True,
            download = True, dest = Some ''out''\<rparr>
           [Some [\<lparr>Key = ''/etc/f.nc'', Size = 1\<rparr>]]
           [Some [\<lparr>Key = ''/etc/f.nc'', Size = 1\<rparr>]] =
         ([CreateClient, Paginate ''/'', Paginate ''/'', Mkdir ''/etc'',
           DownloadFile ''/etc/f.nc'' ''/etc/f.nc''],
          Inr \<lparr>scanned = \<lparr>stats = [(Path ''/etc'', \<lparr>files = 1, bytes = 1, ignored = 0\<rparr>)],
                           total_files = 1, total_bytes = 1, total_ignored = 0\<rparr>,
               transferred = \<lparr>downloaded_files = 1, downloaded_bytes = 1\<rparr>,
               printed = [Header ''/'', TotalHeader, TotalFiles 1, TotalSize 1, TotalIgnored 0,
                          DownloadedOne 1 (Path ''out'')]\<rparr>)"
proof -
  note act = transfer_pages_Inr_actions [OF assms [unfolded transfer_def]]
  have dl: "downloads w' =
           downloads w @ map (\<lambda>obj. (Key obj, str (truediv d (Key obj))))
                             (filter (counted lower exts) (entries pgs))"
    using act by (simp add: downloads_append downloads_actions_for)
  have t: "downloaded_files (fst tb) = int (length (filter (counted lower exts) (entries pgs))) \<and>
         downloaded_bytes (fst tb) = sum_list (map Size (filter (counted lower exts) (entries pgs)))"
    using transfer_pages_Inr [OF assms [unfolded transfer_def]]
    by (simp add: transfer_init_def)
  have s: "total_files (fst (scan lower q' exts pgs)) =
           int (length (filter (counted lower exts) (entries pgs))) \<and>
         total_bytes (fst (scan lower q' exts pgs)) =
           sum_list (map Size (filter (counted lower exts) (entries pgs))) \<and>
         total_ignored (fst (scan lower q' exts pgs)) =
           int (length (filter (\<lambda>obj. \<not> endswith (Key obj) ''/'' \<and> \<not> counted lower exts obj)
                          (entries pgs)))"
    using scan_pages_counts [of lower exts "(scan_init, new_tqdm None q')" pgs]
    by (simp add: scan_def scan_init_def)
  let ?a = "a\<lparr>download := False\<rparr>"
  have m: "downloads (fst (main lower io ?a listing1 listing2)) = [] \<and>
         (case snd (main lower io ?a listing1 listing2) of
            Inl e \<Rightarrow> e = RuntimeError
          | Inr f \<Rightarrow> downloaded_files (transferred f) = 0 \<and> downloaded_bytes (transferred f) = 0)"
  proof (cases "validate ?a")
    case (Inl e)
    then have "e = RuntimeError" by (auto simp: validate_def split: if_splits)
    with Inl show ?thesis by (simp add: main_usage_error)
  next
    case (Inr D)
    then show ?thesis
      by (simp add: main_no_download [where D = D] transfer_init_def)
  qed
  have e: "main ascii_lower always_ok
           \<lparr>prefix = ''/'', extensions = None, details = False, quiet = True,
            download = True, dest = Some ''out''\<rparr>
           [Some [\<lparr>Key = ''/etc/f.nc'', Size = 1\<rparr>]]
           [Some [\<lparr>Key = ''/etc/f.nc'', Size = 1\<rparr>]] =
         ([CreateClient, Paginate ''/'', Paginate ''/'', Mkdir ''/etc'',
           DownloadFile ''/etc/f.nc'' ''/etc/f.nc''],
          Inr \<lparr>scanned = \<lparr>stats = [(Path ''/etc'', \<lparr>files = 1, bytes = 1, ignored = 0\<rparr>)],
                           total_files = 1, total_bytes = 1, total_ignored = 0\<rparr>,
               transferred = \<lparr>downloaded_files = 1, downloaded_bytes = 1\<rparr>,
               printed = [Header ''/'', TotalHeader, TotalFiles 1, TotalSize 1, TotalIgnored 0,
                          DownloadedOne 1 (Path ''out'')]\<rparr>)"
    by code_simp
  from scan_obj_counts [of lower exts sb obj] act dl t s m e
    truediv_relative_key [of key d] truediv_rooted_key [of key' d]
  show ?thesis by blast
qed

theorem transfer_downloads_what_scan_counts_witness:
  "transfer ascii_lower always_ok False (Some [''.nc'']) (Path ''out'') 150 []
     [Some [\<lparr>Key = ''data/a/f1.nc'', Size = 100\<rparr>, \<lparr>Key = ''data/a/f2.tar'', Size = 200\<rparr>],
      Some [\<lparr>Key = ''data/b/'', Size = 0\<rparr>, \<lparr>Key = ''data/b/f3.nc'', Size = 50\<rparr>]]
   = ([Mkdir ''out/data/a'', DownloadFile ''data/a/f1.nc'' ''out/data/a/f1.nc'',
       Mkdir ''out/data/b'', DownloadFile ''data/b/f3.nc'' ''out/data/b/f3.nc''],
      Inr (\<lparr>downloaded_files = 2, downloaded_bytes = 150\<rparr>,
           \<lparr>total = Some 150, disable = False, n = 150, postfix = Some 2\<rparr>)) \<and>
   filter (counted ascii_lower (Some [''.nc'']))
     (entries [Some [\<lparr>Key = ''data/a/f1.nc'', Size = 100\<rparr>, \<lparr>Key = ''data/a/f2.tar'', Size = 200\<rparr>],
               Some [\<lparr>Key = ''data/b/'', Size = 0\<rparr>, \<lparr>Key = ''data/b/f3.nc'', Size = 50\<rparr>]])
   = [\<lparr>Key = ''data/a/f1.nc'', Size = 100\<rparr>, \<lparr>Key = ''data/b/f3.nc'', Size = 50\<rparr>] \<and>
   total_files (fst (scan ascii_lower True (Some [''.nc''])
     [Some [\<lparr>Key = ''data/a/f1.nc'', Size = 100\<rparr>, \<lparr>Key = ''data/a/f2.tar'', Size = 200\<rparr>],
      Some [\<lparr>Key = ''data/b/'', Size = 0\<rparr>, \<lparr>Key = ''data/b/f3.nc'', Size = 50\<rparr>]])) = 2 \<and>
   total_bytes (fst (scan ascii_lower True (Some [''.nc''])
     [Some [\<lparr>Key = ''data/a/f1.nc'', Size = 100\<rparr>, \<lparr>Key = ''data/a/f2.tar'', Size = 200\<rparr>],
      Some [\<lparr>Key = ''data/b/'', Size = 0\<rparr>, \<lparr>Key = ''data/b/f3.nc'', Size = 50\<rparr>]])) = 150 \<and>
   total_ignored (fst (scan ascii_lower True (Some [''.nc''])
     [Some [\<lparr>Key = ''data/a/f1.nc'', Size = 100\<rparr>, \<lparr>Key = ''data/a/f2.tar'', Size = 200\<rparr>],
      Some [\<lparr>Key = ''data/b/'', Size = 0\<rparr>, \<lparr>Key = ''data/b/f3.nc'', Size = 50\<rparr>]])) = 1 \<and>
   \<not> startswith ''data/a/f1.nc'' ''/'' \<and>
   truediv (Path ''out'') ''data/a/f1.nc'' = \<lparr>root = [], parts = [''out'', ''data'', ''a'', ''f1.nc'']\<rparr> \<and>
   startswith ''/etc/f.nc'' ''/'' \<and>
   truediv (Path ''out'') ''/etc/f.nc'' = \<lparr>root = ''/'', parts = [''/'', ''etc'', ''f.nc'']\<rparr>"
proof -
  let ?pgs = "[Some [\<lparr>Key = ''data/a/f1.nc'', Size = 100\<rparr>, \<lparr>Key = ''data/a/f2.tar'', Size = 200\<rparr>],
               Some [\<lparr>Key = ''data/b/'', Size = 0\<rparr>, \<lparr>Key = ''data/b/f3.nc'', Size = 50\<rparr>]]"
  have h: "transfer ascii_lower always_ok False (Some [''.nc'']) (Path ''out'') 150 [] ?pgs
     = ([Mkdir ''out/data/a'', DownloadFile ''data/a/f1.nc'' ''out/data/a/f1.nc'',
         Mkdir ''out/data/b'', DownloadFile ''data/b/f3.nc'' ''out/data/b/f3.nc''],
        Inr (\<lparr>downloaded_files = 2, downloaded_bytes = 150\<rparr>,
             \<lparr>total = Some 150, disable = False, n = 150, postfix = Some 2\<rparr>))"
    by code_simp
  have f: "filter (counted ascii_lower (Some [''.nc''])) (entries ?pgs)
     = [\<lparr>Key = ''data/a/f1.nc'', Size = 100\<rparr>, \<lparr>Key = ''data/b/f3.nc'', Size = 50\<rparr>]"
    by code_simp
  have c: "total_files (fst (scan ascii_lower True (Some [''.nc'']) ?pgs)) = 2"
          "total_bytes (fst (scan ascii_lower True (Some [''.nc'']) ?pgs)) = 150"
          "total_ignored (fst (scan ascii_lower True (Some [''.nc'']) ?pgs)) = 1"
    by code_simp+
  have k: "\<not> startswith ''data/a/f1.nc'' ''/''" "startswith ''/etc/f.nc'' ''/''"
    by (simp_all add: startswith_def)
  have p: "truediv (Path ''out'') ''data/a/f1.nc'' =
             \<lparr>root = [], parts = [''out'', ''data'', ''a'', ''f1.nc'']\<rparr>"
          "truediv (Path ''out'') ''/etc/f.nc'' = \<lparr>root = ''/'', parts = [''/'', ''etc'', ''f.nc'']\<rparr>"
    by code_simp+
  show ?thesis
    using transfer_downloads_what_scan_counts [OF h, where q' = True
        and sb = "(scan_init, new_tqdm None True)" and obj = "\<lparr>Key = ''data/b/'', Size = 0\<rparr>"
        and a = "\<lparr>prefix = ''data'', extensions = None, details = False, quiet = False,
                  download = True, dest = Some ''out''\<rparr>"
        and ?listing1.0 = "[]" and ?listing2.0 = "[]"
        and key = "''data/a/f1.nc''" and key' = "''/etc/f.nc''"]
    by (simp (no_asm) only: h f c k p simp_thms)
qed

section \<open>An empty list of extensions\<close>

lemma normalise_extensions_empty:
  "normalise_extensions lower (Some []) = None" "normalise_extensions lower None = None"
  by (simp_all add: normalise_extensions_def truthy_def)

lemma counted_None: "counted lower None obj = (\<not> endswith (Key obj) ''/'')"
  by (simp add: counted_def truthy_def)

lemma validate_extensions: "validate (a\<lparr>extensions := x\<rparr>) = validate a"
  by (simp add: validate_def)

lemma PREFIX_extensions: "PREFIX (a\<lparr>extensions := x\<rparr>) = PREFIX a"
  by (simp add: PREFIX_def)

lemma report_top_extensions: "report_top (a\<lparr>extensions := x\<rparr>) s = report_top a s"
  by (simp add: report_top_def PREFIX_extensions)

lemma report_extensions: "report (a\<lparr>extensions := x\<rparr>) s t D = report a s t D"
  by (simp add: report_def report_top_extensions split: option.splits)

lemma main_extensions:
  "normalise_extensions lower x = normalise_extensions lower y \<Longrightarrow>
   main lower io (a\<lparr>extensions := x\<rparr>) listing1 listing2 = main lower io (a\<lparr>extensions := y\<rparr>) listing1 listing2"
  by (cases "validate a")
    (simp_all add: main_def validate_extensions PREFIX_extensions report_extensions Let_def
       split: option.splits prod.splits sum.splits)

text \<open>
  C10. \<^verbatim>\<open>--extensions\<close> with no value is no filter: the normalised filter is
  \<^verbatim>\<open>None\<close>, the program runs as it does without the option, the scan lower pass counts every
  entry that is not a directory marker and ignores none, and a transfer lower pass that ends
  without an exception has downloaded every entry that is not a directory marker.
\<close>

theorem empty_extension_list_is_no_filter:
  "normalise_extensions lower (Some []) = None \<and>
   main lower io (a\<lparr>extensions := Some []\<rparr>) listing1 listing2 =
     main lower io (a\<lparr>extensions := None\<rparr>) listing1 listing2 \<and>
   total_files (fst (scan lower q (normalise_extensions lower (Some [])) pgs)) =
     int (length (filter (\<lambda>obj. \<not> endswith (Key obj) ''/'') (entries pgs))) \<and>
   total_bytes (fst (scan lower q (normalise_extensions lower (Some [])) pgs)) =
     sum_list (map Size (filter (\<lambda>obj. \<not> endswith (Key obj) ''/'') (entries pgs))) \<and>
   total_ignored (fst (scan lower q (normalise_extensions lower (Some [])) pgs)) = 0 \<and>
   (transfer lower io q (normalise_extensions lower (Some [])) d tot w pgs = (w', Inr tb) \<longrightarrow>
      downloads w' =
        downloads w @ map (\<lambda>obj. (Key obj, str (truediv d (Key obj))))
                          (filter (\<lambda>obj. \<not> endswith (Key obj) ''/'') (entries pgs)) \<and>
      downloaded_files (fst tb) =
        int (length (filter (\<lambda>obj. \<not> endswith (Key obj) ''/'') (entries pgs))))"
proof -
  have c: "counted lower None = (\<lambda>obj. \<not> endswith (Key obj) ''/'')"
    by (rule ext) (rule counted_None)
  have m: "main lower io (a\<lparr>extensions := Some []\<rparr>) listing1 listing2 =
           main lower io (a\<lparr>extensions := None\<rparr>) listing1 listing2"
    by (rule main_extensions) (simp add: normalise_extensions_empty)
  have s: "total_files (fst (scan lower q None pgs)) =
             int (length (filter (\<lambda>obj. \<not> endswith (Key obj) ''/'') (entries pgs))) \<and>
           total_bytes (fst (scan lower q None pgs)) =
             sum_list (map Size (filter (\<lambda>obj. \<not> endswith (Key obj) ''/'') (entries pgs))) \<and>
           total_ignored (fst (scan lower q None pgs)) = 0"
    using scan_pages_counts [of lower None "(scan_init, new_tqdm None q)" pgs]
    by (simp add: scan_def scan_init_def c)
  have t: "downloads w' =
        downloads w @ map (\<lambda>obj. (Key obj, str (truediv d (Key obj))))
                          (filter (\<lambda>obj. \<not> endswith (Key obj) ''/'') (entries pgs)) \<and>
      downloaded_files (fst tb) =
        int (length (filter (\<lambda>obj. \<not> endswith (Key obj) ''/'') (entries pgs)))"
    if "transfer lower io q None d tot w pgs = (w', Inr tb)"
    using transfer_pages_Inr [OF that [unfolded transfer_def]]
    by (simp add: transfer_init_def c)
  from m s t show ?thesis
    by (simp add: normalise_extensions_empty)
qed

theorem empty_extension_list_is_no_filter_witness:
  "transfer ascii_lower always_ok False (normalise_extensions ascii_lower (Some [])) (Path ''out'') 0 []
     [Some [\<lparr>Key = ''data/b/'', Size = 0\<rparr>, \<lparr>Key = ''data/b/f3.nc'', Size = 50\<rparr>]]
   = ([Mkdir ''out/data/b'', DownloadFile ''data/b/f3.nc'' ''out/data/b/f3.nc''],
      Inr (\<lparr>downloaded_files = 1, downloaded_bytes = 50\<rparr>,
           \<lparr>total = Some 0, disable = False, n = 50, postfix = Some 1\<rparr>)) \<and>
   filter (\<lambda>obj. \<not> endswith (Key obj) ''/'')
     (entries [Some [\<lparr>Key = ''data/b/'', Size = 0\<rparr>, \<lparr>Key = ''data/b/f3.nc'', Size = 50\<rparr>]])
   = [\<lparr>Key = ''data/b/f3.nc'', Size = 50\<rparr>] \<and>
   total_files (fst (scan ascii_lower False (normalise_extensions ascii_lower (Some []))
     [Some [\<lparr>Key = ''data/b/'', Size = 0\<rparr>, \<lparr>Key = ''data/b/f3.nc'', Size = 50\<rparr>]])) = 1"
proof -
  let ?pgs = "[Some [\<lparr>Key = ''data/b/'', Size = 0\<rparr>, \<lparr>Key = ''data/b/f3.nc'', Size = 50\<rparr>]]"
  have h: "transfer ascii_lower always_ok False (normalise_extensions ascii_lower (Some [])) (Path ''out'') 0 [] ?pgs
     = ([Mkdir ''out/data/b'', DownloadFile ''data/b/f3.nc'' ''out/data/b/f3.nc''],
        Inr (\<lparr>downloaded_files = 1, downloaded_bytes = 50\<rparr>,
             \<lparr>total = Some 0, disable = False, n = 50, postfix = Some 1\<rparr>))"
    by code_simp
  have f: "filter (\<lambda>obj. \<not> endswith (Key obj) ''/'') (entries ?pgs)
     = [\<lparr>Key = ''data/b/f3.nc'', Size = 50\<rparr>]"
    by code_simp
  show ?thesis
    using h empty_extension_list_is_no_filter [where lower = ascii_lower and io = always_ok and q = False
        and d = "Path ''out''" and tot = 0 and w = "[]" and pgs = ?pgs
        and a = "\<lparr>prefix = ''data'', extensions = None, details = False, quiet = False,
                  download = False, dest = None\<rparr>"
        and ?listing1.0 = "[]" and ?listing2.0 = "[]"
        and w' = "[Mkdir ''out/data/b'', DownloadFile ''data/b/f3.nc'' ''out/data/b/f3.nc'']"
        and tb = "(\<lparr>downloaded_files = 1, downloaded_bytes = 50\<rparr>,
                   \<lparr>total = Some 0, disable = False, n = 50, postfix = Some 1\<rparr>)"]
    by (simp add: f normalise_extensions_empty)
qed

section \<open>The order of the folders in the report\<close>

lemma folder_names_append: "folder_names (u @ v) = folder_names u @ folder_names v"
  by (induction u rule: folder_names.induct) simp_all

lemma folder_names_folders:
  "folder_names (concat (map (folder_lines st) fs)) = map str fs"
  by (induction fs) (simp_all add: folder_lines_def)

text \<open>
  C4, as the code has it. With \<^verbatim>\<open>--details\<close> the report names every folder of the
  dictionary once, in ascending order of the paths: their parts are compared one by one
  as strings, the root first.
\<close>

theorem report_folder_order:
  assumes "details a" and "report a s t D = Inr out"
  shows "folder_names out = map str (sorted_folders (stats s)) \<and>
         sorted (map parts (sorted_folders (stats s))) \<and>
         set (sorted_folders (stats s)) = fst ` set (stats s) \<and>
         length (sorted_folders (stats s)) = length (stats s)"
proof -
  have "folder_names (report_top a s) = map str (sorted_folders (stats s))"
    using assms(1) by (simp add: report_top_def folder_names_append folder_names_folders)
  with assms(2) have "folder_names out = map str (sorted_folders (stats s))"
    by (auto simp: report_def folder_names_append split: if_splits option.splits)
  then show ?thesis
    by (simp add: sorted_folders_def)
qed

theorem report_folder_order_witness:
  "details \<lparr>prefix = ''a'', extensions = None, details = True, quiet = True,
            download = False, dest = None\<rparr> \<and>
   report \<lparr>prefix = ''a'', extensions = None, details = True, quiet = True,
           download = False, dest = None\<rparr>
     (fst (scan ascii_lower True None [Some [\<lparr>Key = ''a/b/f'', Size = 1\<rparr>, \<lparr>Key = ''a-b/f'', Size = 2\<rparr>,
                                 \<lparr>Key = ''a/a/f'', Size = 3\<rparr>]]))
     transfer_init None =
   Inr [Header ''a/'',
        FolderName ''a/a'', FolderFiles 1, FolderSize 3, FolderIgnored 0, Blank,
        FolderName ''a/b'', FolderFiles 1, FolderSize 1, FolderIgnored 0, Blank,
        FolderName ''a-b'', FolderFiles 1, FolderSize 2, FolderIgnored 0, Blank,
        TotalHeader, TotalFiles 3, TotalSize 6, TotalIgnored 0] \<and>
   map parts (sorted_folders (stats (fst (scan ascii_lower True None
      [Some [\<lparr>Key = ''a/b/f'', Size = 1\<rparr>, \<lparr>Key = ''a-b/f'', Size = 2\<rparr>,
             \<lparr>Key = ''a/a/f'', Size = 3\<rparr>]])))) = [[''a'', ''a''], [''a'', ''b''], [''a-b'']] \<and>
   sorted [[''a'', ''a''], [''a'', ''b''], [''a-b'']]"
proof -
  let ?a = "\<lparr>prefix = ''a'', extensions = None, details = True, quiet = True,
            download = False, dest = None\<rparr>"
  let ?s = "fst (scan ascii_lower True None [Some [\<lparr>Key = ''a/b/f'', Size = 1\<rparr>, \<lparr>Key = ''a-b/f'', Size = 2\<rparr>,
                                 \<lparr>Key = ''a/a/f'', Size = 3\<rparr>]])"
  have h1: "details ?a" by simp
  have h2: "report ?a ?s transfer_init None =
    Inr [Header ''a/'',
        FolderName ''a/a'', FolderFiles 1, FolderSize 3, FolderIgnored 0, Blank,
        FolderName ''a/b'', FolderFiles 1, FolderSize 1, FolderIgnored 0, Blank,
        FolderName ''a-b'', FolderFiles 1, FolderSize 2, FolderIgnored 0, Blank,
        TotalHeader, TotalFiles 3, TotalSize 6, TotalIgnored 0]"
    by code_simp
  have p: "map parts (sorted_folders (stats ?s)) = [[''a'', ''a''], [''a'', ''b''], [''a-b'']]"
    by code_simp
  show ?thesis
    using h1 h2 report_folder_order [OF h1 h2]
    by (simp add: p)
qed

text \<open>
  That order is not the order of the folder names as strings: \<^verbatim>\<open>a/b\<close> is printed
  before \<^verbatim>\<open>a-b\<close>, and \<^verbatim>\<open>-\<close> is below \<^verbatim>\<open>/\<close>.
\<close>

theorem report_folder_order_counterexample:
  "map str (sorted_folders (stats (fst (scan ascii_lower False None
      [Some [\<lparr>Key = ''a/b/f'', Size = 1\<rparr>, \<lparr>Key = ''a-b/f'', Size = 1\<rparr>]])))) = [''a/b'', ''a-b''] \<and>
   \<not> sorted (map str (sorted_folders (stats (fst (scan ascii_lower False None
      [Some [\<lparr>Key = ''a/b/f'', Size = 1\<rparr>, \<lparr>Key = ''a-b/f'', Size = 1\<rparr>]])))))"
  by code_simp

section \<open>Grouping by parent path\<close>

lemma keys_modify:
  "map fst (modify f k al) = (if k \<in> fst ` set al then map fst al else map fst al @ [k])"
  by (induction al) force+

lemma lookup_modify_other: "g \<noteq> k \<Longrightarrow> lookup (modify f k al) g = lookup al g"
  by (induction al) auto

lemma lookup_modify_same: "lookup (modify f k al) k = Some (f (getitem al k))"
  by (induction al) (auto simp: getitem_def)

text \<open>
  C6. An entry that is not a directory marker touches the accumulator of its parent
  path and no other: that folder is in the dictionary afterwards, added at the end when
  it was not there, and every other folder keeps what it had. The keys \<^verbatim>\<open>x/y/f1\<close> and
  \<^verbatim>\<open>x/y/f2\<close> have the parent \<^verbatim>\<open>x/y\<close>, the key \<^verbatim>\<open>x/z/f3\<close> has the different parent
  \<^verbatim>\<open>x/z\<close>, and scanning the three gives two accumulators, the first with two files.
\<close>

theorem grouping_by_parent:
  assumes "\<not> endswith (Key obj) ''/''" and "folder \<noteq> parent (Path (Key obj))"
  shows "lookup (stats (fst (scan_obj lower exts sb obj))) folder = lookup (stats (fst sb)) folder \<and>
         lookup (stats (fst (scan_obj lower exts sb obj))) (parent (Path (Key obj))) \<noteq> None \<and>
         map fst (stats (fst (scan_obj lower exts sb obj))) =
           (if parent (Path (Key obj)) \<in> fst ` set (stats (fst sb)) then map fst (stats (fst sb))
            else map fst (stats (fst sb)) @ [parent (Path (Key obj))]) \<and>
         parent (Path ''x/y/f1'') = Path ''x/y'' \<and>
         parent (Path ''x/y/f2'') = Path ''x/y'' \<and>
         parent (Path ''x/z/f3'') = Path ''x/z'' \<and>
         Path ''x/y'' \<noteq> Path ''x/z'' \<and>
         str (Path ''x/y'') = ''x/y'' \<and> str (Path ''x/z'') = ''x/z'' \<and>
         stats (fst (scan lower q None [Some [\<lparr>Key = ''x/y/f1'', Size = s1\<rparr>,
              \<lparr>Key = ''x/y/f2'', Size = s2\<rparr>, \<lparr>Key = ''x/z/f3'', Size = s3\<rparr>]])) =
           [(Path ''x/y'', \<lparr>files = 2, bytes = s1 + s2, ignored = 0\<rparr>),
            (Path ''x/z'', \<lparr>files = 1, bytes = s3, ignored = 0\<rparr>)]"
proof -
  have a: "lookup (stats (fst (scan_obj lower exts sb obj))) folder = lookup (stats (fst sb)) folder"
    using assms(2) by (simp add: scan_obj_def Let_def lookup_modify_other)
  have b: "lookup (stats (fst (scan_obj lower exts sb obj))) (parent (Path (Key obj))) \<noteq> None"
    using assms(1) by (simp add: scan_obj_def Let_def lookup_modify_same)
  have c: "map fst (stats (fst (scan_obj lower exts sb obj))) =
           (if parent (Path (Key obj)) \<in> fst ` set (stats (fst sb)) then map fst (stats (fst sb))
            else map fst (stats (fst sb)) @ [parent (Path (Key obj))])"
    using assms(1) by (simp add: scan_obj_def Let_def keys_modify fst_set_modify)
  have p: "Path ''x/y/f1'' = \<lparr>root = [], parts = [''x'', ''y'', ''f1'']\<rparr>"
          "Path ''x/y/f2'' = \<lparr>root = [], parts = [''x'', ''y'', ''f2'']\<rparr>"
          "Path ''x/z/f3'' = \<lparr>root = [], parts = [''x'', ''z'', ''f3'']\<rparr>"
          "Path ''x/y'' = \<lparr>root = [], parts = [''x'', ''y'']\<rparr>"
          "Path ''x/z'' = \<lparr>root = [], parts = [''x'', ''z'']\<rparr>"
    by (simp_all add: Path_def splitroot_def)
  have d: "parent (Path ''x/y/f1'') = Path ''x/y''" "parent (Path ''x/y/f2'') = Path ''x/y''"
          "parent (Path ''x/z/f3'') = Path ''x/z''" "Path ''x/y'' \<noteq> Path ''x/z''"
          "str (Path ''x/y'') = ''x/y''" "str (Path ''x/z'') = ''x/z''"
    by (simp_all add: p parent_def str_def)
  have e: "stats (fst (scan lower q None [Some [\<lparr>Key = ''x/y/f1'', Size = s1\<rparr>,
              \<lparr>Key = ''x/y/f2'', Size = s2\<rparr>, \<lparr>Key = ''x/z/f3'', Size = s3\<rparr>]])) =
           [(Path ''x/y'', \<lparr>files = 2, bytes = s1 + s2, ignored = 0\<rparr>),
            (Path ''x/z'', \<lparr>files = 1, bytes = s3, ignored = 0\<rparr>)]"
    by (simp add: scan_def contents_def scan_obj_def endswith_def truthy_def d scan_init_def
        zero_stats_def)
  from a b c d e show ?thesis by blast
qed

theorem grouping_by_parent_witness:
  "\<not> endswith (Key \<lparr>Key = ''x/y/f2'', Size = 4\<rparr>) ''/'' \<and>
   Path ''x/z'' \<noteq> parent (Path (Key \<lparr>Key = ''x/y/f2'', Size = 4\<rparr>)) \<and>
   lookup (stats (fst (scan_obj ascii_lower None
       (fst (scan ascii_lower False None [Some [\<lparr>Key = ''x/y/f1'', Size = 3\<rparr>, \<lparr>Key = ''x/z/f3'', Size = 5\<rparr>]]),
        new_tqdm None False)
       \<lparr>Key = ''x/y/f2'', Size = 4\<rparr>))) (Path ''x/z'') =
     Some \<lparr>files = 1, bytes = 5, ignored = 0\<rparr> \<and>
   map fst (stats (fst (scan_obj ascii_lower None
       (fst (scan ascii_lower False None [Some [\<lparr>Key = ''x/y/f1'', Size = 3\<rparr>, \<lparr>Key = ''x/z/f3'', Size = 5\<rparr>]]),
        new_tqdm None False)
       \<lparr>Key = ''x/y/f2'', Size = 4\<rparr>))) = [Path ''x/y'', Path ''x/z'']"
proof -
  let ?obj = "\<lparr>Key = ''x/y/f2'', Size = 4\<rparr>"
  let ?s = "fst (scan ascii_lower False None [Some [\<lparr>Key = ''x/y/f1'', Size = 3\<rparr>, \<lparr>Key = ''x/z/f3'', Size = 5\<rparr>]])"
  have h1: "\<not> endswith (Key ?obj) ''/''"
    by (simp add: endswith_def)
  have h2: "Path ''x/z'' \<noteq> parent (Path (Key ?obj))"
    by code_simp
  have s: "stats ?s = [(Path ''x/y'', \<lparr>files = 1, bytes = 3, ignored = 0\<rparr>),
                       (Path ''x/z'', \<lparr>files = 1, bytes = 5, ignored = 0\<rparr>)]"
    by code_simp
  have k: "parent (Path (Key ?obj)) = Path ''x/y''"
    by code_simp
  show ?thesis
    using h1 h2 grouping_by_parent [OF h1 h2, where lower = ascii_lower and exts = None
        and sb = "(?s, new_tqdm None False)" and q = False and ?s1.0 = 0 and ?s2.0 = 0 and ?s3.0 = 0]
    by (simp add: s k)
qed

end
